theory Spec2Isabelle
  imports Main "HOL-Library.Word"
begin

unbundle bit_operations_syntax

section \<open>Errors (errors.go)\<close>

text \<open>
  Go error values. The two package-level sentinels of errors.go are pointers made by
  \<^verbatim>\<open>errors.New\<close>, compared by identity; \<^verbatim>\<open>io.EOF\<close> is the sentinel of package io.
  \<open>UnavailableHashFunctionError\<close> is the struct of errors.go with its \<^verbatim>\<open>crypto.Hash\<close>
  field (an unsigned integer). \<open>Wrapped\<close> is an error that wraps another one
  (\<^verbatim>\<open>fmt.Errorf("...: %w", err)\<close>), \<open>OtherError\<close> any further error value, named by
  a number.
\<close>

datatype error =
    EOF
  | ErrBufferGetFailed
  | ErrHashFunctionNotAvailable
  | UnavailableHashFunctionError nat
  | Wrapped string error
  | OtherError nat

text \<open>\<^verbatim>\<open>func (e UnavailableHashFunctionError) Error() string\<close>; the sentinels carry the
  text given to \<^verbatim>\<open>errors.New\<close>.\<close>

fun Error :: "error \<Rightarrow> string" where
  "Error EOF = ''EOF''"
| "Error ErrBufferGetFailed = ''buffer could not be asserted as *[]byte''"
| "Error ErrHashFunctionNotAvailable = ''hash function not available''"
| "Error (UnavailableHashFunctionError h) = ''hash function not available''"
| "Error (Wrapped msg e) = msg @ '': '' @ Error e"
| "Error (OtherError k) = ''error''"

text \<open>\<^verbatim>\<open>func (e UnavailableHashFunctionError) Is(target error) bool\<close>: the only \<^verbatim>\<open>Is\<close>
  method of the package; no other error of the model has one.\<close>

fun Is_method :: "error \<Rightarrow> error \<Rightarrow> bool" where
  "Is_method (UnavailableHashFunctionError h) target = (target = ErrHashFunctionNotAvailable)"
| "Is_method e target = False"

text \<open>\<^verbatim>\<open>errors.Is(err, target)\<close> of the standard library, for a non-nil \<open>err\<close> and
  \<open>target\<close>: walk the chain of wrapped errors; at each link succeed when the link is the
  target or its \<^verbatim>\<open>Is\<close> method accepts the target.\<close>

fun errors_Is :: "error \<Rightarrow> error \<Rightarrow> bool" where
  "errors_Is (Wrapped msg e) target =
     (Wrapped msg e = target \<or> Is_method (Wrapped msg e) target \<or> errors_Is e target)"
| "errors_Is e target = (e = target \<or> Is_method e target)"

section \<open>Collaborators of the engine\<close>

type_synonym byte = "8 word"

text \<open>
  A \<^verbatim>\<open>hash.Hash\<close> value: an opaque, stateful accumulator. \<open>write_fn\<close> is its
  \<^verbatim>\<open>Write\<close> method on the internal state (new state and the error it reports, \<open>None\<close>
  for \<^verbatim>\<open>nil\<close>), \<open>sum_fn\<close> its \<^verbatim>\<open>Sum(nil)\<close>.
\<close>

record 's hash =
  hstate :: 's
  write_fn :: "'s \<Rightarrow> byte list \<Rightarrow> 's \<times> error option"
  sum_fn :: "'s \<Rightarrow> byte list"

definition hash_Write :: "'s hash \<Rightarrow> byte list \<Rightarrow> 's hash \<times> error option" where
  "hash_Write h p = (case write_fn h (hstate h) p of (s', err) \<Rightarrow> (h\<lparr>hstate := s'\<rparr>, err))"

definition hash_Sum :: "'s hash \<Rightarrow> byte list" where
  "hash_Sum h = sum_fn h (hstate h)"

text \<open>
  An \<^verbatim>\<open>io.Reader\<close>, by what its successive \<^verbatim>\<open>Read\<close> calls do: call number \<open>k\<close>
  (from 0) stores the bytes \<open>fst (data k)\<close> at the front of the slice it is given,
  returns their number and the error \<open>snd (data k)\<close>.
\<close>

type_synonym reader = "nat \<Rightarrow> byte list \<times> error option"

text \<open>The slice after a \<^verbatim>\<open>Read\<close> that stored \<open>d\<close>: the rest keeps what an earlier
  lease or round left there.\<close>

definition read_into :: "byte list \<Rightarrow> byte list \<Rightarrow> byte list" where
  "read_into d buf = take (length buf) (d @ drop (length d) buf)"

subsection \<open>The buffer pool (multihash.go, lines 18-25)\<close>

definition bufferSize :: nat where
  "bufferSize = 65536"

text \<open>What a \<^verbatim>\<open>sync.Pool\<close> holds is of type \<^verbatim>\<open>any\<close>: a pointer to a byte slice, or
  a value of some other type.\<close>

datatype any = ByteSlicePtr "byte list" | NonBuffer nat

definition pool_New :: any where
  "pool_New = ByteSlicePtr (replicate bufferSize 0)"

text \<open>\<^verbatim>\<open>Get\<close> removes an item of the pool, or makes one with \<^verbatim>\<open>New\<close> when the pool is
  empty; \<^verbatim>\<open>Put\<close> adds an item.\<close>

definition pool_Get :: "any list \<Rightarrow> any \<times> any list" where
  "pool_Get p = (case p of [] \<Rightarrow> (pool_New, []) | x # rest \<Rightarrow> (x, rest))"

definition pool_Put :: "any \<Rightarrow> any list \<Rightarrow> any list" where
  "pool_Put x p = x # p"

section \<open>The engine (multihash.go)\<close>

text \<open>
  \<^verbatim>\<open>FromReader\<close> runs one goroutine per hash beside its own. All three channels are
  unbuffered, so every communication is a rendezvous of \<^verbatim>\<open>FromReader\<close> with one
  \<^verbatim>\<open>hashFeeder\<close>. The model is the interleaving of the goroutines: each has a program
  counter, a step is a local step of one goroutine or one rendezvous.
\<close>

text \<open>Where a \<^verbatim>\<open>hashFeeder\<close> stands: blocked receiving from \<open>readySignals\<close> (line 106),
  about to write \<open>bytesRead\<close> bytes (line 107), blocked sending its error (line 108),
  blocked sending its digest (line 110), returned.\<close>

datatype hashFeeder_pc =
    WaitReady
  | Writing nat
  | SendErr "error option"
  | SendSum "byte list"
  | Done

record 's feeder =
  hash :: "'s hash"
  fpc :: hashFeeder_pc

text \<open>Where \<^verbatim>\<open>FromReader\<close> stands: at its entry (line 51), at \<^verbatim>\<open>data.Read\<close> (line 66),
  in the loop that sends \<open>bytesRead\<close> (lines 74-76, with \<open>i\<close>), in the loop that receives
  the errors (lines 77-81, with \<open>i\<close>), in the loop that receives the digests (lines 84-86,
  with the index and \<open>hashset\<close>), returned with its two results.\<close>

datatype FromReader_pc =
    Entry
  | Reading
  | Signal nat nat
  | Await nat
  | Collect nat "byte list list"
  | Return "byte list list" "error option"

record 's config =
  pool :: "any list"
  buffer :: "byte list"
  nreads :: nat
  closed :: bool
  orch :: FromReader_pc
  feeders :: "'s feeder list"
  panicked :: bool

definition start :: "any list \<Rightarrow> 's config" where
  "start p = \<lparr>pool = p, buffer = [], nreads = 0, closed = False, orch = Entry,
              feeders = [], panicked = False\<rparr>"

text \<open>A \<^verbatim>\<open>return\<close> after line 55: the deferred \<^verbatim>\<open>bufferPool.Put(buffer)\<close> runs.\<close>

definition ret :: "byte list list \<Rightarrow> error option \<Rightarrow> 's config \<Rightarrow> 's config" where
  "ret hashset err c =
     c\<lparr>orch := Return hashset err, pool := pool_Put (ByteSlicePtr (buffer c)) (pool c)\<rparr>"

text \<open>Lines 59-63: one goroutine per hash, each at its \<^verbatim>\<open>range readySignals\<close>.\<close>

definition spawn :: "'s hash \<Rightarrow> 's feeder" where
  "spawn h = \<lparr>hash = h, fpc = WaitReady\<rparr>"

text \<open>The steps \<^verbatim>\<open>FromReader\<close> takes alone.\<close>

definition orch_step :: "reader \<Rightarrow> 's hash list \<Rightarrow> 's config \<Rightarrow> 's config option" where
  "orch_step data hashFunctions c =
     (case orch c of
        Entry \<Rightarrow>
          (case pool_Get (pool c) of
             (ByteSlicePtr b, rest) \<Rightarrow>
               Some (c\<lparr>pool := rest, buffer := b, feeders := map spawn hashFunctions,
                        orch := Reading\<rparr>)
           | (NonBuffer v, rest) \<Rightarrow>
               Some (c\<lparr>pool := rest, orch := Return [] (Some ErrBufferGetFailed)\<rparr>))
      | Reading \<Rightarrow>
          (case data (nreads c) of (d, err) \<Rightarrow>
             (let c' = c\<lparr>buffer := read_into d (buffer c), nreads := nreads c + 1\<rparr>;
                  bytesRead = length d
              in case err of
                   Some e \<Rightarrow>
                     if bytesRead = 0 \<and> errors_Is e EOF
                     then Some (c'\<lparr>closed := True, orch := Collect 0 []\<rparr>)
                     else Some (ret [] (Some e) c')
                 | None \<Rightarrow> Some (c'\<lparr>orch := Signal 0 bytesRead\<rparr>)))
      | Signal i bytesRead \<Rightarrow>
          if i < length (feeders c) then None else Some (c\<lparr>orch := Await 0\<rparr>)
      | Await i \<Rightarrow>
          if i < length (feeders c) then None else Some (c\<lparr>orch := Reading\<rparr>)
      | Collect i hashset \<Rightarrow>
          if i < length (feeders c) then None else Some (ret hashset None c)
      | Return hashset err \<Rightarrow> None)"

text \<open>The steps \<^verbatim>\<open>hashFeeder\<close> number \<open>j\<close> takes alone: it leaves the \<^verbatim>\<open>range\<close> once
  \<open>readySignals\<close> is closed, and it writes \<^verbatim>\<open>(*buffer)[:bytesRead]\<close> to its hash; the
  slice expression panics beyond the buffer's capacity.\<close>

definition feeder_step :: "nat \<Rightarrow> 's config \<Rightarrow> 's config option" where
  "feeder_step j c =
     (if length (feeders c) \<le> j then None
      else let f = feeders c ! j in
        case fpc f of
          WaitReady \<Rightarrow>
            if closed c
            then Some (c\<lparr>feeders := (feeders c)[j := f\<lparr>fpc := SendSum (hash_Sum (hash f))\<rparr>]\<rparr>)
            else None
        | Writing bytesRead \<Rightarrow>
            if length (buffer c) < bytesRead then Some (c\<lparr>panicked := True\<rparr>)
            else (case hash_Write (hash f) (take bytesRead (buffer c)) of (h', err) \<Rightarrow>
                    Some (c\<lparr>feeders := (feeders c)[j := \<lparr>hash = h', fpc = SendErr err\<rparr>]\<rparr>))
        | SendErr err \<Rightarrow> None
        | SendSum d \<Rightarrow> None
        | Done \<Rightarrow> None)"

text \<open>A rendezvous of \<^verbatim>\<open>FromReader\<close> with \<^verbatim>\<open>hashFeeder\<close> number \<open>j\<close>: on
  \<open>readySignals\<close> (line 75 with line 106), on \<open>errorChannel\<close> (line 78 with line 108), on
  the feeder's own \<open>returnChannel\<close> (line 85 with line 110).\<close>

definition sync_step :: "nat \<Rightarrow> 's config \<Rightarrow> 's config option" where
  "sync_step j c =
     (if length (feeders c) \<le> j then None
      else let f = feeders c ! j in
        case orch c of
          Signal i bytesRead \<Rightarrow>
            (case fpc f of
               WaitReady \<Rightarrow>
                 if i < length (feeders c)
                 then Some (c\<lparr>orch := Signal (i + 1) bytesRead,
                               feeders := (feeders c)[j := f\<lparr>fpc := Writing bytesRead\<rparr>]\<rparr>)
                 else None
             | _ \<Rightarrow> None)
        | Await i \<Rightarrow>
            (case fpc f of
               SendErr err \<Rightarrow>
                 if i < length (feeders c)
                 then (let c' = c\<lparr>feeders := (feeders c)[j := f\<lparr>fpc := WaitReady\<rparr>]\<rparr>
                       in case err of
                            Some e \<Rightarrow> Some (ret [] (Some e) c')
                          | None \<Rightarrow> Some (c'\<lparr>orch := Await (i + 1)\<rparr>))
                 else None
             | _ \<Rightarrow> None)
        | Collect i hashset \<Rightarrow>
            (case fpc f of
               SendSum d \<Rightarrow>
                 if i < length (feeders c) \<and> i = j
                 then Some (c\<lparr>orch := Collect (i + 1) (hashset @ [d]),
                               feeders := (feeders c)[j := f\<lparr>fpc := Done\<rparr>]\<rparr>)
                 else None
             | _ \<Rightarrow> None)
        | _ \<Rightarrow> None)"

text \<open>What the scheduler picks: a step of \<^verbatim>\<open>FromReader\<close>, a step of feeder \<open>j\<close>, a
  rendezvous with feeder \<open>j\<close>. A panic of any goroutine ends the program.\<close>

datatype event = Orch | Feed nat | Sync nat

definition step :: "reader \<Rightarrow> 's hash list \<Rightarrow> event \<Rightarrow> 's config \<Rightarrow> 's config option" where
  "step data hashFunctions ev c =
     (if panicked c then None
      else case ev of
             Orch \<Rightarrow> orch_step data hashFunctions c
           | Feed j \<Rightarrow> feeder_step j c
           | Sync j \<Rightarrow> sync_step j c)"

text \<open>A run under a given schedule; \<open>None\<close> when the schedule picks a step that cannot
  be taken.\<close>

fun exec :: "reader \<Rightarrow> 's hash list \<Rightarrow> event list \<Rightarrow> 's config \<Rightarrow> 's config option" where
  "exec data hashFunctions [] c = Some c"
| "exec data hashFunctions (ev # evs) c =
     (case step data hashFunctions ev c of
        None \<Rightarrow> None
      | Some c' \<Rightarrow> exec data hashFunctions evs c')"

text \<open>The configurations a call of \<^verbatim>\<open>FromReader(data, hashFunctions...)\<close> can reach, from
  the pool \<open>p\<close>, under any schedule.\<close>

inductive reach :: "reader \<Rightarrow> 's hash list \<Rightarrow> any list \<Rightarrow> 's config \<Rightarrow> bool"
  for data :: reader and hashFunctions :: "'s hash list" and p :: "any list" where
  reach_start: "reach data hashFunctions p (start p)"
| reach_step: "reach data hashFunctions p c \<Longrightarrow> step data hashFunctions ev c = Some c'
     \<Longrightarrow> reach data hashFunctions p c'"

text \<open>The call can return \<open>(hashset, err)\<close>.\<close>

definition FromReader_returns ::
  "any list \<Rightarrow> reader \<Rightarrow> 's hash list \<Rightarrow> byte list list \<Rightarrow> error option \<Rightarrow> bool" where
  "FromReader_returns p data hashFunctions hashset err \<longleftrightarrow>
     (\<exists>c. reach data hashFunctions p c \<and> orch c = Return hashset err)"

text \<open>The events that can be taken in \<open>c\<close>; a configuration with none is stuck.\<close>

definition events :: "'s config \<Rightarrow> event list" where
  "events c = Orch # map Feed [0..<length (feeders c)] @ map Sync [0..<length (feeders c)]"

definition enabled :: "reader \<Rightarrow> 's hash list \<Rightarrow> 's config \<Rightarrow> event list" where
  "enabled data hashFunctions c = filter (\<lambda>ev. step data hashFunctions ev c \<noteq> None) (events c)"

text \<open>What a schedule leads to, as far as it can be observed: where \<^verbatim>\<open>FromReader\<close> and
  the feeders stand, what each feeder's hash would give as its digest, and the events that
  can be taken next.\<close>

definition outcome ::
  "reader \<Rightarrow> 's hash list \<Rightarrow> any list \<Rightarrow> event list
     \<Rightarrow> (FromReader_pc \<times> hashFeeder_pc list \<times> byte list list \<times> event list) option" where
  "outcome data hashFunctions p evs =
     (case exec data hashFunctions evs (start p) of
        None \<Rightarrow> None
      | Some c \<Rightarrow>
          Some (orch c, map fpc (feeders c), map (\<lambda>f. hash_Sum (hash f)) (feeders c),
                enabled data hashFunctions c))"

text \<open>The pool a schedule leaves.\<close>

definition pool_after :: "reader \<Rightarrow> 's hash list \<Rightarrow> any list \<Rightarrow> event list \<Rightarrow> any list option" where
  "pool_after data hashFunctions p evs =
     (case exec data hashFunctions evs (start p) of None \<Rightarrow> None | Some c \<Rightarrow> Some (pool c))"

subsection \<open>FromFile (lines 34-41)\<close>

text \<open>\<^verbatim>\<open>os.Open\<close> gives the file, an \<^verbatim>\<open>io.Reader\<close>, or an error, with which \<^verbatim>\<open>FromFile\<close>
  returns at once; the deferred \<^verbatim>\<open>f.Close()\<close> has no part in the results.\<close>

definition FromFile_returns ::
  "(string \<Rightarrow> error + reader) \<Rightarrow> any list \<Rightarrow> string \<Rightarrow> 's hash list
     \<Rightarrow> byte list list \<Rightarrow> error option \<Rightarrow> bool" where
  "FromFile_returns os_Open p filename hashes hashset err \<longleftrightarrow>
     (case os_Open filename of
        Inl e \<Rightarrow> hashset = [] \<and> err = Some e
      | Inr f \<Rightarrow> FromReader_returns p f hashes hashset err)"

section \<open>Invariants of the protocol\<close>

text \<open>A feeder that holds a signal it has not yet acknowledged.\<close>

definition busy :: "'s feeder \<Rightarrow> bool" where
  "busy f \<longleftrightarrow> fpc f \<noteq> WaitReady"

text \<open>Where a feeder can stand while \<open>readySignals\<close> is open.\<close>

definition in_round :: "'s feeder \<Rightarrow> bool" where
  "in_round f \<longleftrightarrow>
     (case fpc f of WaitReady \<Rightarrow> True | Writing n \<Rightarrow> True | SendErr e \<Rightarrow> True
      | SendSum d \<Rightarrow> False | Done \<Rightarrow> False)"

text \<open>Where feeder \<open>j\<close> can stand while \<^verbatim>\<open>FromReader\<close> collects digest number \<open>i\<close>.\<close>

definition draining :: "nat \<Rightarrow> nat \<Rightarrow> 's feeder \<Rightarrow> bool" where
  "draining i j f \<longleftrightarrow>
     (case fpc f of Done \<Rightarrow> j < i | WaitReady \<Rightarrow> i \<le> j | SendSum d \<Rightarrow> i \<le> j
      | Writing n \<Rightarrow> False | SendErr e \<Rightarrow> False)"

text \<open>The barrier: the loop counters of \<^verbatim>\<open>FromReader\<close> count the feeders that hold a
  signal, and the feeders stand where the phase of \<^verbatim>\<open>FromReader\<close> lets them.\<close>

definition shape :: "'s hash list \<Rightarrow> 's config \<Rightarrow> bool" where
  "shape hashFunctions c \<longleftrightarrow>
     (case orch c of
        Entry \<Rightarrow> feeders c = [] \<and> \<not> closed c
      | Reading \<Rightarrow> length (feeders c) = length hashFunctions \<and> \<not> closed c
          \<and> list_all (\<lambda>f. fpc f = WaitReady) (feeders c)
      | Signal i n \<Rightarrow> length (feeders c) = length hashFunctions \<and> \<not> closed c
          \<and> length (filter busy (feeders c)) = i \<and> list_all in_round (feeders c)
      | Await i \<Rightarrow> length (feeders c) = length hashFunctions \<and> \<not> closed c
          \<and> length (filter busy (feeders c)) + i = length hashFunctions
          \<and> list_all in_round (feeders c)
      | Collect i hashset \<Rightarrow> length (feeders c) = length hashFunctions \<and> closed c
          \<and> i \<le> length hashFunctions
          \<and> (\<forall>j<length (feeders c). draining i j (feeders c ! j))
      | Return hashset err \<Rightarrow> True)"

text \<open>The chunks of the first \<open>k\<close> reads, and a hash after it was given a list of chunks,
  one \<^verbatim>\<open>Write\<close> each.\<close>

definition chunks :: "reader \<Rightarrow> nat \<Rightarrow> byte list list" where
  "chunks data k = map (\<lambda>i. fst (data i)) [0..<k]"

definition Writes :: "'s hash \<Rightarrow> byte list list \<Rightarrow> 's hash" where
  "Writes h ps = foldl (\<lambda>h p. fst (hash_Write h p)) h ps"

text \<open>The first \<open>k\<close> reads reported no error; read number \<open>k - 1\<close> was the end of the
  stream: no bytes, and an error that is \<^verbatim>\<open>io.EOF\<close>.\<close>

definition clean :: "reader \<Rightarrow> nat \<Rightarrow> bool" where
  "clean data k \<longleftrightarrow> (\<forall>i<k. snd (data i) = None)"

definition ended :: "reader \<Rightarrow> nat \<Rightarrow> bool" where
  "ended data k \<longleftrightarrow> 0 < k \<and> clean data (k - 1) \<and> fst (data (k - 1)) = []
     \<and> (\<exists>e. snd (data (k - 1)) = Some e \<and> errors_Is e EOF)"

text \<open>What a feeder has consumed, after \<open>r\<close> reads with the buffer \<open>buf\<close>, when a waiting
  feeder has been through \<open>k\<close> chunks: \<open>h0\<close> is the hash the caller passed.\<close>

definition feeder_fed ::
  "reader \<Rightarrow> nat \<Rightarrow> byte list \<Rightarrow> nat \<Rightarrow> 's hash \<Rightarrow> 's feeder \<Rightarrow> bool" where
  "feeder_fed data r buf k h0 f \<longleftrightarrow>
     (case fpc f of
        WaitReady \<Rightarrow> hash f = Writes h0 (chunks data k)
      | Writing m \<Rightarrow> m = length (fst (data (r - 1))) \<and> hash f = Writes h0 (chunks data (r - 1))
      | SendErr e \<Rightarrow> length (fst (data (r - 1))) \<le> length buf
          \<and> (hash f, e) = hash_Write (Writes h0 (chunks data (r - 1))) (fst (data (r - 1)))
      | SendSum d \<Rightarrow> d = hash_Sum (Writes h0 (chunks data k))
      | Done \<Rightarrow> True)"

definition all_fed ::
  "reader \<Rightarrow> 's hash list \<Rightarrow> nat \<Rightarrow> byte list \<Rightarrow> 's feeder list \<Rightarrow> nat \<Rightarrow> bool" where
  "all_fed data hashFunctions r buf fs k \<longleftrightarrow>
     (\<forall>j<length hashFunctions. feeder_fed data r buf k (hashFunctions ! j) (fs ! j))"

text \<open>The buffer holds the chunk of the last read.\<close>

definition loaded :: "reader \<Rightarrow> nat \<Rightarrow> byte list \<Rightarrow> bool" where
  "loaded data r buf \<longleftrightarrow>
     (let d = fst (data (r - 1)) in length d \<le> length buf \<longrightarrow> take (length d) buf = d)"

definition digests :: "reader \<Rightarrow> nat \<Rightarrow> 's hash list \<Rightarrow> byte list list" where
  "digests data k hashFunctions = map (\<lambda>h. hash_Sum (Writes h (chunks data k))) hashFunctions"

definition fed :: "reader \<Rightarrow> 's hash list \<Rightarrow> 's config \<Rightarrow> bool" where
  "fed data hashFunctions c \<longleftrightarrow>
     (case orch c of
        Entry \<Rightarrow> nreads c = 0
      | Reading \<Rightarrow> clean data (nreads c) \<and> all_fed data hashFunctions (nreads c) (buffer c) (feeders c) (nreads c)
      | Signal i n \<Rightarrow> 0 < nreads c \<and> clean data (nreads c) \<and> loaded data (nreads c) (buffer c)
          \<and> n = length (fst (data (nreads c - 1)))
          \<and> all_fed data hashFunctions (nreads c) (buffer c) (feeders c) (nreads c - 1)
      | Await i \<Rightarrow> 0 < nreads c \<and> clean data (nreads c) \<and> loaded data (nreads c) (buffer c)
          \<and> all_fed data hashFunctions (nreads c) (buffer c) (feeders c) (nreads c)
      | Collect i hashset \<Rightarrow> ended data (nreads c)
          \<and> hashset = digests data (nreads c - 1) (take i hashFunctions)
          \<and> all_fed data hashFunctions (nreads c) (buffer c) (feeders c) (nreads c - 1)
      | Return hashset err \<Rightarrow>
          (case err of
             None \<Rightarrow> ended data (nreads c) \<and> hashset = digests data (nreads c - 1) hashFunctions
           | Some e \<Rightarrow> hashset = []))"

text \<open>Facts that hold in every configuration, also after \<^verbatim>\<open>FromReader\<close> has returned:
  every read but the last reported no error, and a feeder that holds a signal holds the
  length of the last chunk, whose read reported no error.\<close>

definition holds_length :: "reader \<Rightarrow> nat \<Rightarrow> 's feeder \<Rightarrow> bool" where
  "holds_length data r f \<longleftrightarrow>
     (case fpc f of
        Writing n \<Rightarrow> 0 < r \<and> n = length (fst (data (r - 1))) \<and> snd (data (r - 1)) = None
      | _ \<Rightarrow> True)"

definition calm :: "reader \<Rightarrow> 's config \<Rightarrow> bool" where
  "calm data c \<longleftrightarrow>
     clean data (nreads c - 1) \<and> list_all (holds_length data (nreads c)) (feeders c)"

text \<open>Where the leased item is: \<open>p\<close> is the pool at the call. Until line 51 has run the
  pool is untouched; while the call runs, the item is out of the pool; after a return
  that followed line 55 the buffer is back, once.\<close>

definition leased :: "any list \<Rightarrow> 's config \<Rightarrow> bool" where
  "leased p c \<longleftrightarrow>
     (case pool_Get p of (item, rest) \<Rightarrow>
        (case orch c of
           Entry \<Rightarrow> pool c = p
         | Return hashset err \<Rightarrow>
             (case item of
                ByteSlicePtr b \<Rightarrow> pool c = pool_Put (ByteSlicePtr (buffer c)) rest
                  \<and> length (buffer c) = length b
              | NonBuffer v \<Rightarrow> pool c = rest \<and> hashset = [] \<and> err = Some ErrBufferGetFailed
                  \<and> feeders c = [])
         | _ \<Rightarrow> pool c = rest \<and> (\<exists>b. item = ByteSlicePtr b \<and> length (buffer c) = length b)))"

section \<open>Termination\<close>

text \<open>A run that never ends, and a configuration in which no step can be taken.\<close>

definition infinite_run :: "reader \<Rightarrow> 's hash list \<Rightarrow> any list \<Rightarrow> (nat \<Rightarrow> 's config) \<Rightarrow> bool" where
  "infinite_run data hashFunctions p run \<longleftrightarrow>
     run 0 = start p \<and> (\<forall>i. \<exists>ev. step data hashFunctions ev (run i) = Some (run (Suc i)))"

definition stuck :: "reader \<Rightarrow> 's hash list \<Rightarrow> 's config \<Rightarrow> bool" where
  "stuck data hashFunctions c \<longleftrightarrow> enabled data hashFunctions c = []"

definition returned :: "'s config \<Rightarrow> bool" where
  "returned c \<longleftrightarrow> (case orch c of Return hashset err \<Rightarrow> True | _ \<Rightarrow> False)"

text \<open>The measure of termination, for a source whose read number \<open>L\<close> reports an error:
  the reads still to come, then the progress of \<^verbatim>\<open>FromReader\<close> through its loops, then
  the feeders that still have a step of their own.\<close>

definition reads_left :: "nat \<Rightarrow> 's config \<Rightarrow> nat" where
  "reads_left L c =
     (case orch c of
        Entry \<Rightarrow> L + 3
      | Reading \<Rightarrow> L + 2 - nreads c
      | Signal i n \<Rightarrow> L + 2 - nreads c
      | Await i \<Rightarrow> L + 2 - nreads c
      | Collect i hashset \<Rightarrow> 0
      | Return hashset err \<Rightarrow> 0)"

definition loop_left :: "'s config \<Rightarrow> nat" where
  "loop_left c =
     (case orch c of
        Entry \<Rightarrow> 0
      | Reading \<Rightarrow> 0
      | Signal i n \<Rightarrow> (length (feeders c) - i) + length (feeders c) + 2
      | Await i \<Rightarrow> (length (feeders c) - i) + 1
      | Collect i hashset \<Rightarrow> (length (feeders c) - i) + 1
      | Return hashset err \<Rightarrow> 0)"

definition movable :: "'s feeder \<Rightarrow> bool" where
  "movable f \<longleftrightarrow>
     (case fpc f of WaitReady \<Rightarrow> True | Writing n \<Rightarrow> True | SendErr e \<Rightarrow> False
      | SendSum d \<Rightarrow> False | Done \<Rightarrow> False)"

definition feeds_left :: "'s config \<Rightarrow> nat" where
  "feeds_left c = (if panicked c then 0 else 1 + length (filter movable (feeders c)))"

text \<open>Accumulators as the engine expects them. A streaming accumulator takes a stream
  in pieces: an empty \<^verbatim>\<open>Write\<close> leaves the state, two writes in a row leave the state of
  one write of both pieces. A reliable one never reports a write error.\<close>

definition streaming :: "'s hash \<Rightarrow> bool" where
  "streaming h \<longleftrightarrow>
     (\<forall>s. fst (write_fn h s []) = s)
     \<and> (\<forall>s a b. fst (write_fn h s (a @ b)) = fst (write_fn h (fst (write_fn h s a)) b))"

definition reliable :: "'s hash \<Rightarrow> bool" where
  "reliable h \<longleftrightarrow> (\<forall>s p. snd (write_fn h s p) = None)"

text \<open>An accumulator that reports no error on the chunks of the first \<open>L\<close> reads.\<close>

definition accepts :: "reader \<Rightarrow> nat \<Rightarrow> 's hash \<Rightarrow> bool" where
  "accepts data L h \<longleftrightarrow>
     (\<forall>k<L. snd (hash_Write (Writes h (chunks data k)) (fst (data k))) = None)"

text \<open>After a return with an error: \<open>readySignals\<close> is still open, and every feeder
  stands inside its loop.\<close>

definition stranded :: "'s config \<Rightarrow> bool" where
  "stranded c \<longleftrightarrow>
     (case orch c of
        Return hashset err \<Rightarrow>
          (case err of None \<Rightarrow> True | Some e \<Rightarrow> \<not> closed c \<and> list_all in_round (feeders c))
      | _ \<Rightarrow> True)"

section \<open>Concrete collaborators\<close>

text \<open>A checksum as an accumulator: the sum of the bytes modulo 256. An accumulator whose
  \<^verbatim>\<open>Write\<close> always fails.\<close>

definition checksum :: "byte hash" where
  "checksum = \<lparr>hstate = 0, write_fn = (\<lambda>s p. (s + sum_list p, None)), sum_fn = (\<lambda>s. [s])\<rparr>"

definition broken :: "byte hash" where
  "broken = \<lparr>hstate = 0, write_fn = (\<lambda>s p. (s, Some (OtherError 1))), sum_fn = (\<lambda>s. [s])\<rparr>"

text \<open>A reader that hands out the given chunks, one per \<^verbatim>\<open>Read\<close>, then reports the end
  of the stream with no bytes, as \<^verbatim>\<open>os.File\<close> and \<^verbatim>\<open>bytes.Reader\<close> do. A reader that
  reports the end of the stream together with its last bytes, as \<^verbatim>\<open>io.Reader\<close> allows
  (\<^verbatim>\<open>iotest.DataErrReader\<close>). A reader that never has bytes and never reports an error.\<close>

definition chunk_reader :: "byte list list \<Rightarrow> reader" where
  "chunk_reader cs k = (if k < length cs then (cs ! k, None) else ([], Some EOF))"

definition data_err_reader :: "byte list \<Rightarrow> reader" where
  "data_err_reader d k = (if k = 0 then (d, Some EOF) else ([], Some EOF))"

definition idle_reader :: reader where
  "idle_reader k = ([], None)"

text \<open>A reader whose every \<^verbatim>\<open>Read\<close> stores \<open>d\<close> and fails with \<open>e\<close>.\<close>

definition failing_reader :: "byte list \<Rightarrow> error \<Rightarrow> reader" where
  "failing_reader d e k = (d, Some e)"

text \<open>An accumulator that counts the calls of its \<^verbatim>\<open>Write\<close>, whatever their bytes.\<close>

definition write_counter :: "nat hash" where
  "write_counter = \<lparr>hstate = 0, write_fn = (\<lambda>s p. (s + 1, None)), sum_fn = (\<lambda>s. [of_nat s])\<rparr>"

section \<open>The digest algorithms of the scenarios\<close>

text \<open>
  \<^verbatim>\<open>crypto.MD5\<close>, \<^verbatim>\<open>crypto.SHA1\<close> and \<^verbatim>\<open>crypto.SHA256\<close> are packages of the Go standard
  library, outside this repository. They are modelled by the algorithms they implement
  (RFC 1321, FIPS 180-4), as functions from the whole message to its digest.
\<close>

text \<open>32-bit words as naturals below \<open>2 ^ 32\<close>, the wrap-around written out.\<close>

definition add32 :: "nat \<Rightarrow> nat \<Rightarrow> nat" where
  "add32 x y = (x + y) mod 2 ^ 32"

definition not32 :: "nat \<Rightarrow> nat" where
  "not32 x = 2 ^ 32 - 1 - x mod 2 ^ 32"

definition rotl32 :: "nat \<Rightarrow> nat \<Rightarrow> nat" where
  "rotl32 n x = (x * 2 ^ n) mod 2 ^ 32 + x div 2 ^ (32 - n)"

definition rotr32 :: "nat \<Rightarrow> nat \<Rightarrow> nat" where
  "rotr32 n x = x div 2 ^ n + (x * 2 ^ (32 - n)) mod 2 ^ 32"

definition be32 :: "byte \<Rightarrow> byte \<Rightarrow> byte \<Rightarrow> byte \<Rightarrow> nat" where
  "be32 a b c d = unat a * 2 ^ 24 + unat b * 2 ^ 16 + unat c * 2 ^ 8 + unat d"

definition le32 :: "byte \<Rightarrow> byte \<Rightarrow> byte \<Rightarrow> byte \<Rightarrow> nat" where
  "le32 a b c d = unat a + unat b * 2 ^ 8 + unat c * 2 ^ 16 + unat d * 2 ^ 24"

fun words_be :: "byte list \<Rightarrow> nat list" where
  "words_be (a # b # c # d # rest) = be32 a b c d # words_be rest"
| "words_be _ = []"

fun words_le :: "byte list \<Rightarrow> nat list" where
  "words_le (a # b # c # d # rest) = le32 a b c d # words_le rest"
| "words_le _ = []"

definition bytes_be32 :: "nat \<Rightarrow> byte list" where
  "bytes_be32 w = [of_nat (w div 2 ^ 24 mod 256), of_nat (w div 2 ^ 16 mod 256),
                   of_nat (w div 2 ^ 8 mod 256), of_nat (w mod 256)]"

definition bytes_le32 :: "nat \<Rightarrow> byte list" where
  "bytes_le32 w = [of_nat (w mod 256), of_nat (w div 2 ^ 8 mod 256),
                   of_nat (w div 2 ^ 16 mod 256), of_nat (w div 2 ^ 24 mod 256)]"

definition bytes_be64 :: "nat \<Rightarrow> byte list" where
  "bytes_be64 w = bytes_be32 (w div 2 ^ 32 mod 2 ^ 32) @ bytes_be32 (w mod 2 ^ 32)"

definition bytes_le64 :: "nat \<Rightarrow> byte list" where
  "bytes_le64 w = bytes_le32 (w mod 2 ^ 32) @ bytes_le32 (w div 2 ^ 32 mod 2 ^ 32)"

definition pad_zeros :: "nat \<Rightarrow> nat" where
  "pad_zeros len = (119 - len mod 64) mod 64"

definition sha_pad :: "byte list \<Rightarrow> byte list" where
  "sha_pad m = m @ 0x80 # replicate (pad_zeros (length m)) 0 @ bytes_be64 (8 * length m)"

definition md5_pad :: "byte list \<Rightarrow> byte list" where
  "md5_pad m = m @ 0x80 # replicate (pad_zeros (length m)) 0 @ bytes_le64 (8 * length m)"

fun blocks :: "nat \<Rightarrow> byte list \<Rightarrow> byte list list" where
  "blocks 0 m = []"
| "blocks (Suc n) m = take 64 m # blocks n (drop 64 m)"

subsection \<open>SHA-256 (FIPS 180-4, section 6.2)\<close>

definition K256 :: "nat list" where
  "K256 = [0x428a2f98, 0x71374491, 0xb5c0fbcf, 0xe9b5dba5, 0x3956c25b, 0x59f111f1, 0x923f82a4, 0xab1c5ed5,
   0xd807aa98, 0x12835b01, 0x243185be, 0x550c7dc3, 0x72be5d74, 0x80deb1fe, 0x9bdc06a7, 0xc19bf174,
   0xe49b69c1, 0xefbe4786, 0x0fc19dc6, 0x240ca1cc, 0x2de92c6f, 0x4a7484aa, 0x5cb0a9dc, 0x76f988da,
   0x983e5152, 0xa831c66d, 0xb00327c8, 0xbf597fc7, 0xc6e00bf3, 0xd5a79147, 0x06ca6351, 0x14292967,
   0x27b70a85, 0x2e1b2138, 0x4d2c6dfc, 0x53380d13, 0x650a7354, 0x766a0abb, 0x81c2c92e, 0x92722c85,
   0xa2bfe8a1, 0xa81a664b, 0xc24b8b70, 0xc76c51a3, 0xd192e819, 0xd6990624, 0xf40e3585, 0x106aa070,
   0x19a4c116, 0x1e376c08, 0x2748774c, 0x34b0bcb5, 0x391c0cb3, 0x4ed8aa4a, 0x5b9cca4f, 0x682e6ff3,
   0x748f82ee, 0x78a5636f, 0x84c87814, 0x8cc70208, 0x90befffa, 0xa4506ceb, 0xbef9a3f7, 0xc67178f2]"

definition sha256_t1 :: "nat \<Rightarrow> nat \<Rightarrow> nat \<Rightarrow> nat \<Rightarrow> nat \<Rightarrow> nat \<Rightarrow> nat" where
  "sha256_t1 e f g h k w =
     add32 (add32 (add32 (add32 h (rotr32 6 e XOR rotr32 11 e XOR rotr32 25 e))
       ((e AND f) XOR (not32 e AND g))) k) w"

definition sha256_t2 :: "nat \<Rightarrow> nat \<Rightarrow> nat \<Rightarrow> nat" where
  "sha256_t2 a b c =
     add32 (rotr32 2 a XOR rotr32 13 a XOR rotr32 22 a) ((a AND b) XOR (a AND c) XOR (b AND c))"

definition sha256_next :: "nat \<Rightarrow> nat \<Rightarrow> nat \<Rightarrow> nat \<Rightarrow> nat" where
  "sha256_next w16 w15 w7 w2 =
     add32 (add32 (add32 (rotr32 17 w2 XOR rotr32 19 w2 XOR w2 div 2 ^ 10) w7)
       (rotr32 7 w15 XOR rotr32 18 w15 XOR w15 div 2 ^ 3)) w16"

fun sha256_shift :: "nat \<Rightarrow> nat \<Rightarrow> nat list \<Rightarrow> nat list" where
  "sha256_shift t1 t2 [a, b, c, d, e, f, g, h] = [add32 t1 t2, a, b, c, add32 d t1, e, f, g]"
| "sha256_shift t1 t2 s = s"

fun sha256_round :: "nat \<Rightarrow> nat \<Rightarrow> nat list \<Rightarrow> nat list" where
  "sha256_round k w [a, b, c, d, e, f, g, h] =
     sha256_shift (sha256_t1 e f g h k w) (sha256_t2 a b c) [a, b, c, d, e, f, g, h]"
| "sha256_round k w s = s"

fun sha256_rounds :: "nat list \<Rightarrow> nat list \<Rightarrow> nat list \<Rightarrow> nat list" where
  "sha256_rounds [] w s = s"
| "sha256_rounds (k # ks) w s =
     sha256_rounds ks (tl w @ [sha256_next (w ! 0) (w ! 1) (w ! 9) (w ! 14)]) (sha256_round k (w ! 0) s)"

definition sha256_block :: "nat list \<Rightarrow> byte list \<Rightarrow> nat list" where
  "sha256_block s blk = map2 add32 s (sha256_rounds K256 (words_be blk) s)"

definition sha256 :: "byte list \<Rightarrow> byte list" where
  "sha256 m = concat (map bytes_be32
     (foldl sha256_block [0x6a09e667, 0xbb67ae85, 0x3c6ef372, 0xa54ff53a, 0x510e527f, 0x9b05688c, 0x1f83d9ab, 0x5be0cd19]
        (blocks (length (sha_pad m) div 64) (sha_pad m))))"

subsection \<open>SHA-1 (FIPS 180-4, section 6.1)\<close>

definition sha1_f :: "nat \<Rightarrow> nat \<Rightarrow> nat \<Rightarrow> nat \<Rightarrow> nat" where
  "sha1_f t b c d =
     (if t < 20 then (b AND c) OR (not32 b AND d)
      else if t < 40 then b XOR c XOR d
      else if t < 60 then (b AND c) OR (b AND d) OR (c AND d)
      else b XOR c XOR d)"

definition sha1_k :: "nat \<Rightarrow> nat" where
  "sha1_k t = (if t < 20 then 0x5a827999 else if t < 40 then 0x6ed9eba1
               else if t < 60 then 0x8f1bbcdc else 0xca62c1d6)"

fun sha1_round :: "nat \<Rightarrow> nat \<Rightarrow> nat list \<Rightarrow> nat list" where
  "sha1_round t w [a, b, c, d, e] =
     [add32 (add32 (add32 (add32 (rotl32 5 a) (sha1_f t b c d)) e) w) (sha1_k t), a, rotl32 30 b, c, d]"
| "sha1_round t w s = s"

definition sha1_next :: "nat \<Rightarrow> nat \<Rightarrow> nat \<Rightarrow> nat \<Rightarrow> nat" where
  "sha1_next w16 w14 w8 w3 = rotl32 1 (w3 XOR w8 XOR w14 XOR w16)"

fun sha1_rounds :: "nat list \<Rightarrow> nat list \<Rightarrow> nat list \<Rightarrow> nat list" where
  "sha1_rounds [] w s = s"
| "sha1_rounds (t # ts) w s =
     sha1_rounds ts (tl w @ [sha1_next (w ! 0) (w ! 2) (w ! 8) (w ! 13)]) (sha1_round t (w ! 0) s)"

definition sha1_block :: "nat list \<Rightarrow> byte list \<Rightarrow> nat list" where
  "sha1_block s blk = map2 add32 s (sha1_rounds [0..<80] (words_be blk) s)"

definition sha1 :: "byte list \<Rightarrow> byte list" where
  "sha1 m = concat (map bytes_be32
     (foldl sha1_block [0x67452301, 0xefcdab89, 0x98badcfe, 0x10325476, 0xc3d2e1f0]
        (blocks (length (sha_pad m) div 64) (sha_pad m))))"

subsection \<open>MD5 (RFC 1321)\<close>

definition md5_T :: "nat list" where
  "md5_T = [0xd76aa478, 0xe8c7b756, 0x242070db, 0xc1bdceee, 0xf57c0faf, 0x4787c62a, 0xa8304613, 0xfd469501,
            0x698098d8, 0x8b44f7af, 0xffff5bb1, 0x895cd7be, 0x6b901122, 0xfd987193, 0xa679438e, 0x49b40821,
            0xf61e2562, 0xc040b340, 0x265e5a51, 0xe9b6c7aa, 0xd62f105d, 0x02441453, 0xd8a1e681, 0xe7d3fbc8,
            0x21e1cde6, 0xc33707d6, 0xf4d50d87, 0x455a14ed, 0xa9e3e905, 0xfcefa3f8, 0x676f02d9, 0x8d2a4c8a,
            0xfffa3942, 0x8771f681, 0x6d9d6122, 0xfde5380c, 0xa4beea44, 0x4bdecfa9, 0xf6bb4b60, 0xbebfbc70,
            0x289b7ec6, 0xeaa127fa, 0xd4ef3085, 0x04881d05, 0xd9d4d039, 0xe6db99e5, 0x1fa27cf8, 0xc4ac5665,
            0xf4292244, 0x432aff97, 0xab9423a7, 0xfc93a039, 0x655b59c3, 0x8f0ccc92, 0xffeff47d, 0x85845dd1,
            0x6fa87e4f, 0xfe2ce6e0, 0xa3014314, 0x4e0811a1, 0xf7537e82, 0xbd3af235, 0x2ad7d2bb, 0xeb86d391]"

definition md5_S :: "nat list" where
  "md5_S = [7, 12, 17, 22, 7, 12, 17, 22, 7, 12, 17, 22, 7, 12, 17, 22,
            5, 9, 14, 20, 5, 9, 14, 20, 5, 9, 14, 20, 5, 9, 14, 20,
            4, 11, 16, 23, 4, 11, 16, 23, 4, 11, 16, 23, 4, 11, 16, 23,
            6, 10, 15, 21, 6, 10, 15, 21, 6, 10, 15, 21, 6, 10, 15, 21]"

definition md5_f :: "nat \<Rightarrow> nat \<Rightarrow> nat \<Rightarrow> nat \<Rightarrow> nat" where
  "md5_f i b c d =
     (if i < 16 then (b AND c) OR (not32 b AND d)
      else if i < 32 then (d AND b) OR (not32 d AND c)
      else if i < 48 then b XOR c XOR d
      else c XOR (b OR not32 d))"

definition md5_g :: "nat \<Rightarrow> nat" where
  "md5_g i =
     (if i < 16 then i
      else if i < 32 then (5 * i + 1) mod 16
      else if i < 48 then (3 * i + 5) mod 16
      else (7 * i) mod 16)"

fun md5_round :: "nat list \<Rightarrow> nat \<Rightarrow> nat list \<Rightarrow> nat list" where
  "md5_round x i [a, b, c, d] =
     [d, add32 b (rotl32 (md5_S ! i) (add32 (add32 (add32 a (md5_f i b c d)) (md5_T ! i)) (x ! md5_g i))), b, c]"
| "md5_round x i s = s"

fun md5_rounds :: "nat list \<Rightarrow> nat list \<Rightarrow> nat list \<Rightarrow> nat list" where
  "md5_rounds x [] s = s"
| "md5_rounds x (i # rest) s = md5_rounds x rest (md5_round x i s)"

definition md5_block :: "nat list \<Rightarrow> byte list \<Rightarrow> nat list" where
  "md5_block s blk = map2 add32 s (md5_rounds (words_le blk) [0..<64] s)"

definition md5 :: "byte list \<Rightarrow> byte list" where
  "md5 m = concat (map bytes_le32
     (foldl md5_block [0x67452301, 0xefcdab89, 0x98badcfe, 0x10325476]
        (blocks (length (md5_pad m) div 64) (md5_pad m))))"

definition hexdigit :: "nat \<Rightarrow> char" where
  "hexdigit n = ''0123456789abcdef'' ! n"

definition hex :: "byte list \<Rightarrow> string" where
  "hex bs = concat (map (\<lambda>b. [hexdigit (unat b div 16), hexdigit (unat b mod 16)]) bs)"

text \<open>The bytes of a string, and a byte sequence in lower-case hexadecimal (\<^verbatim>\<open>%x\<close>).\<close>

definition bytes_of :: "string \<Rightarrow> byte list" where
  "bytes_of s = map (\<lambda>c. of_nat (of_char c)) s"

subsection \<open>The accumulators\<close>

text \<open>What \<^verbatim>\<open>crypto.MD5.New()\<close>, \<^verbatim>\<open>crypto.SHA1.New()\<close> and \<^verbatim>\<open>crypto.SHA256.New()\<close>
  return: \<^verbatim>\<open>Write\<close> adds to the message and never fails, \<^verbatim>\<open>Sum(nil)\<close> is the digest of
  the message so far.\<close>

definition MD5_New :: "byte list hash" where
  "MD5_New = \<lparr>hstate = [], write_fn = (\<lambda>s p. (s @ p, None)), sum_fn = md5\<rparr>"

definition SHA1_New :: "byte list hash" where
  "SHA1_New = \<lparr>hstate = [], write_fn = (\<lambda>s p. (s @ p, None)), sum_fn = sha1\<rparr>"

definition SHA256_New :: "byte list hash" where
  "SHA256_New = \<lparr>hstate = [], write_fn = (\<lambda>s p. (s @ p, None)), sum_fn = sha256\<rparr>"

section \<open>The steps, case by case\<close>

lemma orch_stepE:
  assumes "orch_step data hs c = Some c'"
  obtains
    (entry_ok) b rest where "orch c = Entry" "pool_Get (pool c) = (ByteSlicePtr b, rest)"
      "c' = c\<lparr>pool := rest, buffer := b, feeders := map spawn hs, orch := Reading\<rparr>"
  | (entry_fail) v rest where "orch c = Entry" "pool_Get (pool c) = (NonBuffer v, rest)"
      "c' = c\<lparr>pool := rest, orch := Return [] (Some ErrBufferGetFailed)\<rparr>"
  | (read_ok) d where "orch c = Reading" "data (nreads c) = (d, None)"
      "c' = c\<lparr>buffer := read_into d (buffer c), nreads := nreads c + 1,
               orch := Signal 0 (length d)\<rparr>"
  | (read_eof) e where "orch c = Reading" "data (nreads c) = ([], Some e)" "errors_Is e EOF"
      "c' = c\<lparr>buffer := read_into [] (buffer c), nreads := nreads c + 1,
               closed := True, orch := Collect 0 []\<rparr>"
  | (read_err) d e where "orch c = Reading" "data (nreads c) = (d, Some e)"
      "\<not> (d = [] \<and> errors_Is e EOF)"
      "c' = ret [] (Some e) (c\<lparr>buffer := read_into d (buffer c), nreads := nreads c + 1\<rparr>)"
  | (signal_done) i n where "orch c = Signal i n" "length (feeders c) \<le> i"
      "c' = c\<lparr>orch := Await 0\<rparr>"
  | (await_done) i where "orch c = Await i" "length (feeders c) \<le> i"
      "c' = c\<lparr>orch := Reading\<rparr>"
  | (collect_done) i hashset where "orch c = Collect i hashset" "length (feeders c) \<le> i"
      "c' = ret hashset None c"
proof (cases "orch c")
  case Entry
  with assms entry_ok entry_fail show ?thesis
    by (auto simp: orch_step_def split: prod.splits any.splits)
next
  case Reading
  obtain d err where d: "data (nreads c) = (d, err)" by (cases "data (nreads c)")
  show ?thesis
  proof (cases err)
    case None
    with assms Reading d read_ok show ?thesis
      by (auto simp: orch_step_def Let_def)
  next
    case (Some e)
    show ?thesis
    proof (cases "d = [] \<and> errors_Is e EOF")
      case True
      with assms Reading d Some read_eof show ?thesis
        by (auto simp: orch_step_def Let_def)
    next
      case False
      with assms Reading d Some read_err [of d e] show ?thesis
        by (auto simp: orch_step_def Let_def)
    qed
  qed
next
  case (Signal i n)
  with assms signal_done show ?thesis
    by (auto simp: orch_step_def split: if_splits)
next
  case (Await i)
  with assms await_done show ?thesis
    by (auto simp: orch_step_def split: if_splits)
next
  case (Collect i hashset)
  with assms collect_done show ?thesis
    by (auto simp: orch_step_def split: if_splits)
next
  case (Return hashset err)
  with assms show ?thesis by (simp add: orch_step_def)
qed

lemma feeder_stepE:
  assumes "feeder_step j c = Some c'"
  obtains
    (leave) "j < length (feeders c)" "fpc (feeders c ! j) = WaitReady" "closed c"
      "c' = c\<lparr>feeders := (feeders c)[j := (feeders c ! j)
               \<lparr>fpc := SendSum (hash_Sum (hash (feeders c ! j)))\<rparr>]\<rparr>"
  | (crash) n where "j < length (feeders c)" "fpc (feeders c ! j) = Writing n"
      "length (buffer c) < n" "c' = c\<lparr>panicked := True\<rparr>"
  | (wrote) n h' err where "j < length (feeders c)" "fpc (feeders c ! j) = Writing n"
      "n \<le> length (buffer c)"
      "hash_Write (hash (feeders c ! j)) (take n (buffer c)) = (h', err)"
      "c' = c\<lparr>feeders := (feeders c)[j := \<lparr>hash = h', fpc = SendErr err\<rparr>]\<rparr>"
proof -
  from assms have j: "j < length (feeders c)"
    by (auto simp: feeder_step_def split: if_splits)
  show ?thesis
  proof (cases "fpc (feeders c ! j)")
    case WaitReady
    with assms j leave show ?thesis
      by (auto simp: feeder_step_def Let_def split: if_splits)
  next
    case (Writing n)
    with assms j crash wrote show ?thesis
      by (auto simp: feeder_step_def Let_def split: if_splits prod.splits)
  qed (use assms j in \<open>auto simp: feeder_step_def Let_def\<close>)
qed

lemma sync_stepE:
  assumes "sync_step j c = Some c'"
  obtains
    (signal) i n where "j < length (feeders c)" "orch c = Signal i n" "i < length (feeders c)"
      "fpc (feeders c ! j) = WaitReady"
      "c' = c\<lparr>orch := Signal (i + 1) n,
               feeders := (feeders c)[j := (feeders c ! j)\<lparr>fpc := Writing n\<rparr>]\<rparr>"
  | (ack) i where "j < length (feeders c)" "orch c = Await i" "i < length (feeders c)"
      "fpc (feeders c ! j) = SendErr None"
      "c' = c\<lparr>feeders := (feeders c)[j := (feeders c ! j)\<lparr>fpc := WaitReady\<rparr>],
               orch := Await (i + 1)\<rparr>"
  | (fail) i e where "j < length (feeders c)" "orch c = Await i" "i < length (feeders c)"
      "fpc (feeders c ! j) = SendErr (Some e)"
      "c' = ret [] (Some e) (c\<lparr>feeders := (feeders c)[j := (feeders c ! j)\<lparr>fpc := WaitReady\<rparr>]\<rparr>)"
  | (collect) hashset d where "j < length (feeders c)" "orch c = Collect j hashset"
      "fpc (feeders c ! j) = SendSum d"
      "c' = c\<lparr>orch := Collect (j + 1) (hashset @ [d]),
               feeders := (feeders c)[j := (feeders c ! j)\<lparr>fpc := Done\<rparr>]\<rparr>"
proof -
  from assms have j: "j < length (feeders c)"
    by (auto simp: sync_step_def split: if_splits)
  show ?thesis
  proof (cases "orch c")
    case (Signal i n)
    with assms j signal show ?thesis
      by (auto simp: sync_step_def Let_def split: if_splits hashFeeder_pc.splits)
  next
    case (Await i)
    with assms j ack fail show ?thesis
      by (auto simp: sync_step_def Let_def split: if_splits hashFeeder_pc.splits option.splits)
  next
    case (Collect i hashset)
    with assms j collect show ?thesis
      by (auto simp: sync_step_def Let_def split: if_splits hashFeeder_pc.splits)
  qed (use assms j in \<open>auto simp: sync_step_def Let_def\<close>)
qed

lemma stepE:
  assumes "step data hs ev c = Some c'"
  obtains
    (orch) "\<not> panicked c" "ev = Orch" "orch_step data hs c = Some c'"
  | (feed) j where "\<not> panicked c" "ev = Feed j" "feeder_step j c = Some c'"
  | (sync) j where "\<not> panicked c" "ev = Sync j" "sync_step j c = Some c'"
  using assms by (cases ev) (auto simp: step_def split: if_splits)

section \<open>The barrier holds\<close>

lemma filter_update_same:
  "P y = P (xs ! j) \<Longrightarrow> length (filter P (xs[j := y])) = length (filter P xs)"
proof (induction xs arbitrary: j)
  case Nil
  then show ?case by simp
next
  case (Cons x xs)
  then show ?case by (cases j) auto
qed

lemma filter_update_gain:
  "j < length xs \<Longrightarrow> \<not> P (xs ! j) \<Longrightarrow> P y \<Longrightarrow>
     length (filter P (xs[j := y])) = Suc (length (filter P xs))"
proof (induction xs arbitrary: j)
  case Nil
  then show ?case by simp
next
  case (Cons x xs)
  then show ?case by (cases j) auto
qed

lemma filter_update_loss:
  "j < length xs \<Longrightarrow> P (xs ! j) \<Longrightarrow> \<not> P y \<Longrightarrow>
     Suc (length (filter P (xs[j := y]))) = length (filter P xs)"
proof (induction xs arbitrary: j)
  case Nil
  then show ?case by simp
next
  case (Cons x xs)
  then show ?case by (cases j) auto
qed

lemma filter_none: "length (filter P xs) = 0 \<Longrightarrow> x \<in> set xs \<Longrightarrow> \<not> P x"
  by (induction xs) (auto split: if_splits)

lemma filter_short: "length (filter P xs) < length xs \<Longrightarrow> \<exists>j<length xs. \<not> P (xs ! j)"
proof (induction xs)
  case Nil
  then show ?case by simp
next
  case (Cons x xs)
  show ?case
  proof (cases "P x")
    case True
    with Cons obtain j where "j < length xs" "\<not> P (xs ! j)" by auto
    then have "Suc j < length (x # xs) \<and> \<not> P ((x # xs) ! Suc j)" by simp
    then show ?thesis by blast
  next
    case False
    then have "0 < length (x # xs) \<and> \<not> P ((x # xs) ! 0)" by simp
    then show ?thesis by blast
  qed
qed

lemma filter_some: "0 < length (filter P xs) \<Longrightarrow> \<exists>j<length xs. P (xs ! j)"
proof -
  assume "0 < length (filter P xs)"
  then obtain x where "x \<in> set (filter P xs)" by (cases "filter P xs") auto
  then have "x \<in> set xs" "P x" by auto
  then show ?thesis by (auto simp: in_set_conv_nth)
qed

lemma list_all_update: "list_all P xs \<Longrightarrow> P y \<Longrightarrow> list_all P (xs[j := y])"
  by (cases "j < length xs") (auto simp: list_all_length nth_list_update)

lemma shape_start: "shape hs (start p)"
  by (simp add: shape_def start_def)

lemma in_round_simps:
  "in_round (f\<lparr>fpc := WaitReady\<rparr>)" "in_round (f\<lparr>fpc := Writing n\<rparr>)"
  "in_round \<lparr>hash = h, fpc = SendErr e\<rparr>" "in_round (spawn h)"
  by (simp_all add: in_round_def spawn_def)

lemma shape_orch:
  assumes "shape hs c" and "orch_step data hs c = Some c'"
  shows "shape hs c'"
  using assms(2)
proof (cases rule: orch_stepE)
  case (entry_ok b rest)
  with assms(1) show ?thesis
    by (simp add: shape_def list_all_iff spawn_def)
next
  case (entry_fail v rest)
  then show ?thesis by (simp add: shape_def)
next
  case (read_ok d)
  with assms(1) show ?thesis
    by (auto simp: shape_def busy_def in_round_def list_all_iff)
next
  case (read_eof e)
  with assms(1) show ?thesis
    by (auto simp: shape_def draining_def list_all_length)
next
  case (read_err d e)
  then show ?thesis by (simp add: shape_def ret_def)
next
  case (signal_done i n)
  with assms(1) length_filter_le [of busy "feeders c"] show ?thesis
    by (auto simp: shape_def)
next
  case (await_done i)
  with assms(1) have "length (filter busy (feeders c)) + i = length hs"
    and *: "length (feeders c) = length hs" "\<not> closed c"
    by (simp_all add: shape_def)
  with await_done have "length (filter busy (feeders c)) = 0"
    by linarith
  then have "\<forall>f\<in>set (feeders c). fpc f = WaitReady"
    using filter_none [of busy "feeders c"] by (auto simp: busy_def)
  with await_done * show ?thesis by (simp add: shape_def list_all_iff)
next
  case (collect_done i hashset)
  then show ?thesis by (simp add: shape_def ret_def)
qed

lemma shape_feed:
  assumes "shape hs c" and "feeder_step j c = Some c'"
  shows "shape hs c'"
  using assms(2)
proof (cases rule: feeder_stepE)
  case leave
  with assms(1) obtain i hashset where o: "orch c = Collect i hashset \<or> (\<exists>hs e. orch c = Return hs e)"
    by (cases "orch c") (auto simp: shape_def)
  show ?thesis
  proof (cases "orch c")
    case (Collect i hashset)
    with assms(1) leave show ?thesis
      by (auto simp: shape_def draining_def nth_list_update)
  next
    case (Return hashset err)
    with leave show ?thesis by (simp add: shape_def)
  qed (use assms(1) leave in \<open>auto simp: shape_def\<close>)
next
  case (crash n)
  with assms(1) show ?thesis
    by (cases "orch c") (auto simp: shape_def)
next
  case (wrote n h' err)
  let ?f = "\<lparr>hash = h', fpc = SendErr err\<rparr>"
  from wrote have b: "busy ?f = busy (feeders c ! j)"
    by (simp add: busy_def)
  have r: "list_all in_round (feeders c) \<Longrightarrow> list_all in_round ((feeders c)[j := ?f])"
    by (rule list_all_update) (simp_all add: in_round_def)
  from wrote have nd: "\<And>i. \<not> draining i j (feeders c ! j)"
    by (simp add: draining_def)
  from wrote nd assms(1) filter_update_same [OF b] r show ?thesis
    by (cases "orch c") (auto simp: shape_def list_all_length)
qed

lemma shape_sync:
  assumes "shape hs c" and "sync_step j c = Some c'"
  shows "shape hs c'"
  using assms(2)
proof (cases rule: sync_stepE)
  case (signal i n)
  let ?f = "(feeders c ! j)\<lparr>fpc := Writing n\<rparr>"
  from signal have "length (filter busy ((feeders c)[j := ?f])) = Suc (length (filter busy (feeders c)))"
    by (intro filter_update_gain) (simp_all add: busy_def)
  moreover have "list_all in_round (feeders c) \<Longrightarrow> list_all in_round ((feeders c)[j := ?f])"
    by (rule list_all_update) (simp_all add: in_round_def)
  ultimately show ?thesis using signal assms(1)
    by (auto simp: shape_def)
next
  case (ack i)
  let ?f = "(feeders c ! j)\<lparr>fpc := WaitReady\<rparr>"
  from ack have "Suc (length (filter busy ((feeders c)[j := ?f]))) = length (filter busy (feeders c))"
    by (intro filter_update_loss) (simp_all add: busy_def)
  moreover have "list_all in_round (feeders c) \<Longrightarrow> list_all in_round ((feeders c)[j := ?f])"
    by (rule list_all_update) (simp_all add: in_round_def)
  ultimately show ?thesis using ack assms(1)
    by (auto simp: shape_def)
next
  case (fail i e)
  then show ?thesis by (simp add: shape_def ret_def)
next
  case (collect hashset d)
  with assms(1) show ?thesis
    by (auto simp: shape_def draining_def nth_list_update split: hashFeeder_pc.splits)
qed

lemma shape_step:
  assumes "shape hs c" and "step data hs ev c = Some c'"
  shows "shape hs c'"
  using assms(2) assms(1) by (cases rule: stepE) (auto intro: shape_orch shape_feed shape_sync)

lemma reach_shape: "reach data hs p c \<Longrightarrow> shape hs c"
  by (induction rule: reach.induct) (auto intro: shape_start shape_step)

text \<open>No deadlock: until \<^verbatim>\<open>FromReader\<close> has returned or a goroutine has panicked, some step
  can be taken.\<close>

lemma progress:
  assumes "shape hs c" and "\<not> panicked c" and "\<And>hashset err. orch c \<noteq> Return hashset err"
  shows "\<exists>ev c'. step data hs ev c = Some c'"
proof (cases "orch c")
  case Entry
  then have "\<exists>c'. orch_step data hs c = Some c'"
    by (auto simp: orch_step_def split: prod.splits any.splits)
  with assms(2) show ?thesis by (auto simp: step_def intro: exI [of _ Orch])
next
  case Reading
  then have "\<exists>c'. orch_step data hs c = Some c'"
    by (auto simp: orch_step_def Let_def split: prod.splits option.splits)
  with assms(2) show ?thesis by (auto simp: step_def intro: exI [of _ Orch])
next
  case (Signal i n)
  show ?thesis
  proof (cases "i < length (feeders c)")
    case True
    with Signal assms(1) have "length (filter busy (feeders c)) < length (feeders c)"
      by (simp add: shape_def)
    then obtain j where "j < length (feeders c)" "fpc (feeders c ! j) = WaitReady"
      using filter_short [of busy "feeders c"] by (auto simp: busy_def)
    with Signal True have "\<exists>c'. sync_step j c = Some c'"
      by (simp add: sync_step_def)
    with assms(2) show ?thesis by (auto simp: step_def intro: exI [of _ "Sync j"])
  next
    case False
    with Signal have "\<exists>c'. orch_step data hs c = Some c'"
      by (simp add: orch_step_def)
    with assms(2) show ?thesis by (auto simp: step_def intro: exI [of _ Orch])
  qed
next
  case (Await i)
  show ?thesis
  proof (cases "i < length (feeders c)")
    case True
    with Await assms(1) have "0 < length (filter busy (feeders c))"
      and r: "list_all in_round (feeders c)"
      by (auto simp: shape_def)
    then obtain j where j: "j < length (feeders c)" "fpc (feeders c ! j) \<noteq> WaitReady"
      using filter_some [of busy "feeders c"] by (auto simp: busy_def)
    with r have "in_round (feeders c ! j)" by (simp add: list_all_length)
    with j consider n where "fpc (feeders c ! j) = Writing n" | e where "fpc (feeders c ! j) = SendErr e"
      by (cases "fpc (feeders c ! j)") (auto simp: in_round_def)
    then show ?thesis
    proof cases
      case 1
      with j have "\<exists>c'. feeder_step j c = Some c'"
        by (auto simp: feeder_step_def Let_def split: prod.splits)
      with assms(2) show ?thesis by (auto simp: step_def intro: exI [of _ "Feed j"])
    next
      case 2
      with j Await True have "\<exists>c'. sync_step j c = Some c'"
        by (auto simp: sync_step_def Let_def split: option.splits)
      with assms(2) show ?thesis by (auto simp: step_def intro: exI [of _ "Sync j"])
    qed
  next
    case False
    with Await have "\<exists>c'. orch_step data hs c = Some c'"
      by (simp add: orch_step_def)
    with assms(2) show ?thesis by (auto simp: step_def intro: exI [of _ Orch])
  qed
next
  case (Collect i hashset)
  show ?thesis
  proof (cases "i < length (feeders c)")
    case True
    with Collect assms(1) have "draining i i (feeders c ! i)" and cl: "closed c"
      by (auto simp: shape_def)
    then consider "fpc (feeders c ! i) = WaitReady" | d where "fpc (feeders c ! i) = SendSum d"
      by (cases "fpc (feeders c ! i)") (auto simp: draining_def)
    then show ?thesis
    proof cases
      case 1
      with True cl have "\<exists>c'. feeder_step i c = Some c'"
        by (simp add: feeder_step_def Let_def)
      with assms(2) show ?thesis by (auto simp: step_def intro: exI [of _ "Feed i"])
    next
      case 2
      with True Collect have "\<exists>c'. sync_step i c = Some c'"
        by (simp add: sync_step_def)
      with assms(2) show ?thesis by (auto simp: step_def intro: exI [of _ "Sync i"])
    qed
  next
    case False
    with Collect have "\<exists>c'. orch_step data hs c = Some c'"
      by (simp add: orch_step_def)
    with assms(2) show ?thesis by (auto simp: step_def intro: exI [of _ Orch])
  qed
next
  case (Return hashset err)
  with assms(3) [of hashset err] show ?thesis by simp
qed

section \<open>What the feeders have consumed\<close>

lemma chunks_Suc: "chunks data (Suc k) = chunks data k @ [fst (data k)]"
  by (simp add: chunks_def)

lemma Writes_snoc: "Writes h (ps @ [p]) = fst (hash_Write (Writes h ps) p)"
  by (simp add: Writes_def)

lemma Writes_Nil: "Writes h [] = h"
  by (simp add: Writes_def)

lemma clean_Suc: "clean data (Suc k) \<longleftrightarrow> clean data k \<and> snd (data k) = None"
  by (auto simp: clean_def less_Suc_eq)

lemma take_read_into: "length d \<le> length buf \<Longrightarrow> take (length d) (read_into d buf) = d"
  by (simp add: read_into_def)

lemma length_read_into: "length (read_into d buf) = length buf"
  by (simp add: read_into_def)

lemma filter_all: "length (filter P xs) = length xs \<Longrightarrow> x \<in> set xs \<Longrightarrow> P x"
proof (induction xs)
  case Nil
  then show ?case by simp
next
  case (Cons y ys)
  from length_filter_le [of P ys] have "length (filter P ys) \<noteq> Suc (length ys)"
    by linarith
  with Cons show ?case
    by (auto split: if_splits)
qed

lemma all_fed_waiting:
  assumes "list_all (\<lambda>f. fpc f = WaitReady) fs" "length fs = length hs"
    and "all_fed data hs r buf fs k"
  shows "all_fed data hs r' buf' fs k"
  using assms by (auto simp: all_fed_def feeder_fed_def list_all_length)

lemma feeder_fed_busy:
  "busy f \<Longrightarrow> in_round f \<Longrightarrow> feeder_fed data r buf k h0 f \<Longrightarrow> feeder_fed data r buf k' h0 f"
  by (cases "fpc f") (simp_all add: busy_def in_round_def feeder_fed_def)

lemma fed_orch:
  assumes "fed data hs c" and "shape hs c" and "orch_step data hs c = Some c'"
  shows "fed data hs c'"
  using assms(3)
proof (cases rule: orch_stepE)
  case (entry_ok b rest)
  with assms(1) show ?thesis
    by (simp add: fed_def clean_def all_fed_def feeder_fed_def spawn_def chunks_def Writes_Nil)
next
  case (entry_fail v rest)
  then show ?thesis by (simp add: fed_def)
next
  case (read_ok d)
  with assms(2) have w: "list_all (\<lambda>f. fpc f = WaitReady) (feeders c)" "length (feeders c) = length hs"
    by (simp_all add: shape_def)
  from read_ok assms(1) have "all_fed data hs (nreads c) (buffer c) (feeders c) (nreads c)"
    "clean data (nreads c)"
    by (simp_all add: fed_def)
  with read_ok all_fed_waiting [OF w] show ?thesis
    by (simp add: fed_def clean_Suc loaded_def take_read_into length_read_into)
next
  case (read_eof e)
  with assms(2) have w: "list_all (\<lambda>f. fpc f = WaitReady) (feeders c)" "length (feeders c) = length hs"
    by (simp_all add: shape_def)
  from read_eof assms(1) have "all_fed data hs (nreads c) (buffer c) (feeders c) (nreads c)"
    "clean data (nreads c)"
    by (simp_all add: fed_def)
  with read_eof all_fed_waiting [OF w] show ?thesis
    by (simp add: fed_def ended_def digests_def)
next
  case (read_err d e)
  then show ?thesis by (simp add: fed_def ret_def)
next
  case (signal_done i n)
  with assms(2) have "length (filter busy (feeders c)) = length (feeders c)"
    and l: "length (feeders c) = length hs"
    using length_filter_le [of busy "feeders c"] by (auto simp: shape_def)
  then have "\<forall>f\<in>set (feeders c). busy f"
    using filter_all [of busy "feeders c"] by auto
  moreover from signal_done assms(2) have "\<forall>f\<in>set (feeders c). in_round f"
    by (simp add: shape_def list_all_iff)
  ultimately have "\<forall>j<length hs. busy (feeders c ! j) \<and> in_round (feeders c ! j)"
    using l by simp
  with signal_done assms(1) show ?thesis
    by (auto simp: fed_def all_fed_def intro: feeder_fed_busy)
next
  case (await_done i)
  with assms(1) show ?thesis
    by (auto simp: fed_def all_fed_def)
next
  case (collect_done i hashset)
  with assms(1) assms(2) show ?thesis
    by (auto simp: fed_def ret_def shape_def)
qed


lemma all_fed_update:
  assumes "all_fed data hs r buf fs k" and "j < length hs \<Longrightarrow> feeder_fed data r buf k (hs ! j) f"
  shows "all_fed data hs r buf (fs[j := f]) k"
  using assms by (cases "j < length fs") (auto simp: all_fed_def nth_list_update list_update_beyond)

lemma all_fedD:
  "all_fed data hs r buf fs k \<Longrightarrow> j < length hs \<Longrightarrow> feeder_fed data r buf k (hs ! j) (fs ! j)"
  by (simp add: all_fed_def)

lemma chunks_pred: "0 < r \<Longrightarrow> chunks data r = chunks data (r - 1) @ [fst (data (r - 1))]"
  using chunks_Suc [of data "r - 1"] by simp

lemma fed_feed:
  assumes "fed data hs c" and "shape hs c" and "feeder_step j c = Some c'"
  shows "fed data hs c'"
  using assms(3)
proof (cases rule: feeder_stepE)
  case leave
  let ?f = "(feeders c ! j)\<lparr>fpc := SendSum (hash_Sum (hash (feeders c ! j)))\<rparr>"
  show ?thesis
  proof (cases "orch c")
    case (Collect i hashset)
    with assms(1) have a: "all_fed data hs (nreads c) (buffer c) (feeders c) (nreads c - 1)"
      by (simp add: fed_def)
    have "all_fed data hs (nreads c) (buffer c) ((feeders c)[j := ?f]) (nreads c - 1)"
    proof (rule all_fed_update [OF a])
      assume "j < length hs"
      from all_fedD [OF a this] leave show "feeder_fed data (nreads c) (buffer c) (nreads c - 1) (hs ! j) ?f"
        by (simp add: feeder_fed_def)
    qed
    with Collect assms(1) leave show ?thesis by (simp add: fed_def)
  next
    case (Return hashset err)
    with assms(1) leave show ?thesis by (simp add: fed_def)
  qed (use assms(2) leave in \<open>auto simp: shape_def\<close>)
next
  case (crash n)
  with assms(1) show ?thesis
    by (cases "orch c") (auto simp: fed_def)
next
  case (wrote n h' err)
  let ?f = "\<lparr>hash = h', fpc = SendErr err\<rparr>"
  have upd: "all_fed data hs (nreads c) (buffer c) ((feeders c)[j := ?f]) k"
    if a: "all_fed data hs (nreads c) (buffer c) (feeders c) k"
      and l: "loaded data (nreads c) (buffer c)" for k
  proof (rule all_fed_update [OF a])
    assume "j < length hs"
    from all_fedD [OF a this] wrote
    have n: "n = length (fst (data (nreads c - 1)))"
      and h: "hash (feeders c ! j) = Writes (hs ! j) (chunks data (nreads c - 1))"
      by (simp_all add: feeder_fed_def)
    with wrote l have "take n (buffer c) = fst (data (nreads c - 1))"
      by (simp add: loaded_def Let_def)
    with wrote n h show "feeder_fed data (nreads c) (buffer c) k (hs ! j) ?f"
      by (simp add: feeder_fed_def)
  qed
  show ?thesis
  proof (cases "orch c")
    case Entry
    with assms(2) wrote show ?thesis by (simp add: shape_def)
  next
    case Reading
    with assms(2) wrote show ?thesis by (auto simp: shape_def list_all_length)
  next
    case (Signal i m)
    with assms(1) wrote upd show ?thesis by (simp add: fed_def)
  next
    case (Await i)
    with assms(1) wrote upd show ?thesis by (simp add: fed_def)
  next
    case (Collect i hashset)
    with assms(2) wrote show ?thesis by (auto simp: shape_def draining_def)
  next
    case (Return hashset e)
    with assms(1) wrote show ?thesis by (simp add: fed_def)
  qed
qed

lemma fed_sync:
  assumes "fed data hs c" and "shape hs c" and "sync_step j c = Some c'"
  shows "fed data hs c'"
  using assms(3)
proof (cases rule: sync_stepE)
  case (signal i n)
  let ?f = "(feeders c ! j)\<lparr>fpc := Writing n\<rparr>"
  from signal assms(1) have a: "all_fed data hs (nreads c) (buffer c) (feeders c) (nreads c - 1)"
    and n: "n = length (fst (data (nreads c - 1)))"
    by (simp_all add: fed_def)
  have "all_fed data hs (nreads c) (buffer c) ((feeders c)[j := ?f]) (nreads c - 1)"
  proof (rule all_fed_update [OF a])
    assume "j < length hs"
    from all_fedD [OF a this] signal n
    show "feeder_fed data (nreads c) (buffer c) (nreads c - 1) (hs ! j) ?f"
      by (simp add: feeder_fed_def)
  qed
  with signal assms(1) show ?thesis by (simp add: fed_def)
next
  case (ack i)
  let ?f = "(feeders c ! j)\<lparr>fpc := WaitReady\<rparr>"
  from ack assms(1) have a: "all_fed data hs (nreads c) (buffer c) (feeders c) (nreads c)"
    and r: "0 < nreads c"
    by (simp_all add: fed_def)
  have "all_fed data hs (nreads c) (buffer c) ((feeders c)[j := ?f]) (nreads c)"
  proof (rule all_fed_update [OF a])
    assume "j < length hs"
    from all_fedD [OF a this] ack
    have "hash_Write (Writes (hs ! j) (chunks data (nreads c - 1))) (fst (data (nreads c - 1)))
        = (hash (feeders c ! j), None)"
      by (simp add: feeder_fed_def)
    then have "hash (feeders c ! j) = Writes (hs ! j) (chunks data (nreads c))"
      by (simp add: chunks_pred [OF r] Writes_snoc)
    then show "feeder_fed data (nreads c) (buffer c) (nreads c) (hs ! j) ?f"
      by (simp add: feeder_fed_def)
  qed
  with ack assms(1) show ?thesis by (simp add: fed_def)
next
  case (fail i e)
  then show ?thesis by (simp add: fed_def ret_def)
next
  case (collect hashset d)
  let ?f = "(feeders c ! j)\<lparr>fpc := Done\<rparr>"
  from collect assms(1) have a: "all_fed data hs (nreads c) (buffer c) (feeders c) (nreads c - 1)"
    and h: "hashset = digests data (nreads c - 1) (take j hs)" and e: "ended data (nreads c)"
    by (simp_all add: fed_def)
  from collect assms(2) have j: "j < length hs" by (simp add: shape_def)
  from all_fedD [OF a j] collect have "d = hash_Sum (Writes (hs ! j) (chunks data (nreads c - 1)))"
    by (simp add: feeder_fed_def)
  with h j have "hashset @ [d] = digests data (nreads c - 1) (take (Suc j) hs)"
    by (simp add: digests_def take_Suc_conv_app_nth)
  moreover have "all_fed data hs (nreads c) (buffer c) ((feeders c)[j := ?f]) (nreads c - 1)"
    by (rule all_fed_update [OF a]) (simp add: feeder_fed_def)
  ultimately show ?thesis using collect e by (simp add: fed_def)
qed

lemma fed_start: "fed data hs (start p)"
  by (simp add: fed_def start_def)

lemma fed_step:
  assumes "fed data hs c" and "shape hs c" and "step data hs ev c = Some c'"
  shows "fed data hs c'"
  using assms(3) assms(1,2) by (cases rule: stepE) (auto intro: fed_orch fed_feed fed_sync)

lemma reach_fed: "reach data hs p c \<Longrightarrow> fed data hs c"
  by (induction rule: reach.induct) (auto intro: fed_start fed_step reach_shape)

section \<open>Runs end\<close>

lemma exec_reach:
  "reach data hs p c \<Longrightarrow> exec data hs evs c = Some c' \<Longrightarrow> reach data hs p c'"
proof (induction evs arbitrary: c)
  case Nil
  then show ?case by simp
next
  case (Cons ev evs)
  then show ?case
    by (auto split: option.splits intro: reach_step)
qed

lemma clean_le: "clean data k \<Longrightarrow> snd (data L) \<noteq> None \<Longrightarrow> k \<le> L"
  by (rule ccontr) (simp add: clean_def not_le)

lemma movable_simps:
  "fpc f = WaitReady \<Longrightarrow> movable f" "fpc f = Writing n \<Longrightarrow> movable f"
  "\<not> movable (f\<lparr>fpc := SendSum d\<rparr>)" "\<not> movable \<lparr>hash = h, fpc = SendErr e\<rparr>"
  by (simp_all add: movable_def)

lemma fed_bounds:
  assumes "fed data hs c" and "snd (data L) \<noteq> None"
  shows "orch c = Entry \<Longrightarrow> nreads c = 0"
    and "orch c = Reading \<Longrightarrow> nreads c \<le> L"
    and "orch c = Await i \<Longrightarrow> nreads c \<le> L"
  using assms by (auto simp: fed_def intro: clean_le)

lemma rank_feeders:
  "reads_left L (c\<lparr>feeders := fs\<rparr>) = reads_left L c"
  "length fs = length (feeders c) \<Longrightarrow> loop_left (c\<lparr>feeders := fs\<rparr>) = loop_left c"
  "reads_left L (c\<lparr>panicked := b\<rparr>) = reads_left L c"
  "loop_left (c\<lparr>panicked := b\<rparr>) = loop_left c"
  by (cases "orch c"; simp add: reads_left_def loop_left_def)+

lemma step_decreases:
  assumes "fed data hs c" and "snd (data L) \<noteq> None" and "step data hs ev c = Some c'"
  shows "(c', c) \<in> measures [reads_left L, loop_left, feeds_left]"
  using assms(3)
proof (cases rule: stepE)
  case orch
  from orch(3) fed_bounds [OF assms(1,2)] show ?thesis
    by (cases rule: orch_stepE) (auto simp: reads_left_def loop_left_def ret_def)
next
  case (feed j)
  from feed(3) show ?thesis
  proof (cases rule: feeder_stepE)
    case leave
    let ?f = "(feeders c ! j)\<lparr>fpc := SendSum (hash_Sum (hash (feeders c ! j)))\<rparr>"
    from leave have "Suc (length (filter movable ((feeders c)[j := ?f]))) = length (filter movable (feeders c))"
      by (intro filter_update_loss) (simp_all add: movable_simps)
    with leave feed(1) show ?thesis
      by (simp add: rank_feeders feeds_left_def)
  next
    case (crash n)
    with feed(1) show ?thesis
      by (simp add: rank_feeders feeds_left_def)
  next
    case (wrote n h' err)
    let ?f = "\<lparr>hash = h', fpc = SendErr err\<rparr>"
    from wrote have "Suc (length (filter movable ((feeders c)[j := ?f]))) = length (filter movable (feeders c))"
      by (intro filter_update_loss) (simp_all add: movable_simps)
    with wrote feed(1) show ?thesis
      by (simp add: rank_feeders feeds_left_def)
  qed
next
  case (sync j)
  from sync(3) fed_bounds [OF assms(1,2)] show ?thesis
    by (cases rule: sync_stepE) (auto simp: reads_left_def loop_left_def ret_def)
qed

lemma wf_steps:
  assumes "snd (data L) \<noteq> None"
  shows "wf {(c', c). reach data hs p c \<and> (\<exists>ev. step data hs ev c = Some c')}"
proof (rule wf_subset)
  show "wf (measures [reads_left L, loop_left, feeds_left :: 's config \<Rightarrow> nat])"
    by simp
  show "{(c', c). reach data hs p c \<and> (\<exists>ev. step data hs ev c = Some c')}
      \<subseteq> measures [reads_left L, loop_left, feeds_left]"
    using assms by (auto intro!: step_decreases reach_fed)
qed

lemma run_reach: "infinite_run data hs p run \<Longrightarrow> reach data hs p (run i)"
proof (induction i)
  case 0
  then show ?case by (simp add: infinite_run_def reach_start)
next
  case (Suc i)
  then obtain ev where "step data hs ev (run i) = Some (run (Suc i))"
    by (auto simp: infinite_run_def)
  with Suc show ?case by (auto intro: reach_step)
qed

lemma no_infinite_run:
  assumes "snd (data L) \<noteq> None"
  shows "\<not> infinite_run data hs p run"
proof
  assume r: "infinite_run data hs p run"
  then have "\<forall>i. (run (Suc i), run i) \<in> {(c', c). reach data hs p c \<and> (\<exists>ev. step data hs ev c = Some c')}"
    using run_reach [OF r] by (auto simp: infinite_run_def)
  with wf_steps [of data L hs p, OF assms] show False
    by (simp only: wf_iff_no_infinite_down_chain) blast
qed

lemma stuck_iff: "stuck data hs c \<longleftrightarrow> (\<forall>ev. step data hs ev c = None)"
proof
  assume s: "stuck data hs c"
  show "\<forall>ev. step data hs ev c = None"
  proof
    fix ev
    show "step data hs ev c = None"
    proof (cases "ev \<in> set (events c)")
      case True
      with s show ?thesis by (auto simp: stuck_def enabled_def filter_empty_conv)
    next
      case False
      then show ?thesis
        by (cases ev) (auto simp: events_def step_def feeder_step_def sync_step_def orch_step_def)
    qed
  qed
next
  assume "\<forall>ev. step data hs ev c = None"
  then show "stuck data hs c" by (simp add: stuck_def enabled_def)
qed

lemma some_run_ends:
  assumes "snd (data L) \<noteq> None"
  shows "\<exists>c. reach data hs p c \<and> stuck data hs c"
proof -
  let ?R = "{(c', c). reach data hs p c \<and> (\<exists>ev. step data hs ev c = Some c')}"
  have "start p \<in> {c. reach data hs p c}" by (simp add: reach_start)
  with wf_steps [of data L hs p, OF assms] obtain z where z: "z \<in> {c. reach data hs p c}"
    and m: "\<And>y. (y, z) \<in> ?R \<Longrightarrow> y \<notin> {c. reach data hs p c}"
    by (rule wfE_min) blast
  have "step data hs ev z = None" for ev
  proof (cases "step data hs ev z")
    case (Some y)
    with z have "(y, z) \<in> ?R" "reach data hs p y" by (auto intro: reach_step)
    with m show ?thesis by blast
  qed simp
  with z show ?thesis by (auto simp: stuck_iff)
qed

section \<open>The lease, and the lengths the feeders hold\<close>

lemma calm_step:
  assumes "calm data c" and "fed data hs c" and "shape hs c" and "step data hs ev c = Some c'"
  shows "calm data c'"
  using assms(4)
proof (cases rule: stepE)
  case orch
  from orch(3) show ?thesis
  proof (cases rule: orch_stepE)
    case (entry_ok b rest)
    with assms(1) show ?thesis by (simp add: calm_def list_all_iff spawn_def holds_length_def)
  next
    case (entry_fail v rest)
    with assms(1) show ?thesis by (simp add: calm_def)
  next
    case (read_ok d)
    with assms(2,3) show ?thesis
      by (auto simp: calm_def fed_def shape_def list_all_iff holds_length_def)
  next
    case (read_eof e)
    with assms(2,3) show ?thesis
      by (auto simp: calm_def fed_def shape_def list_all_iff holds_length_def)
  next
    case (read_err d e)
    with assms(2,3) show ?thesis
      by (auto simp: calm_def fed_def shape_def list_all_iff ret_def holds_length_def)
  next
    case (signal_done i n)
    with assms(1) show ?thesis by (simp add: calm_def)
  next
    case (await_done i)
    with assms(1) show ?thesis by (simp add: calm_def)
  next
    case (collect_done i hashset)
    with assms(1) show ?thesis by (simp add: calm_def ret_def)
  qed
next
  case (feed j)
  from feed(3) assms(1) show ?thesis
    by (cases rule: feeder_stepE) (auto simp: calm_def holds_length_def intro!: list_all_update)
next
  case (sync j)
  from sync(3) show ?thesis
  proof (cases rule: sync_stepE)
    case (signal i n)
    with assms(2) have "0 < nreads c" "n = length (fst (data (nreads c - 1)))"
      "snd (data (nreads c - 1)) = None"
      by (simp_all add: fed_def clean_def)
    with signal assms(1) show ?thesis
      by (auto simp: calm_def holds_length_def intro!: list_all_update)
  qed (use assms(1) in \<open>auto simp: calm_def ret_def holds_length_def intro!: list_all_update\<close>)
qed

lemma reach_calm: "reach data hs p c \<Longrightarrow> calm data c"
proof (induction rule: reach.induct)
  case reach_start
  show ?case by (simp add: calm_def start_def clean_def)
next
  case (reach_step c ev c')
  then show ?case by (auto intro: calm_step reach_fed reach_shape)
qed

lemma leased_step:
  assumes "leased p c" and "shape hs c" and "step data hs ev c = Some c'"
  shows "leased p c'"
proof -
  obtain item rest where g: "pool_Get p = (item, rest)" by (cases "pool_Get p")
  from assms(3) show ?thesis
  proof (cases rule: stepE)
    case orch
    from orch(3) assms(1,2) g show ?thesis
      by (cases rule: orch_stepE)
        (auto simp: leased_def shape_def ret_def length_read_into split: any.splits)
  next
    case (feed j)
    from feed(3) show ?thesis
    proof (cases rule: feeder_stepE)
      case leave
      with assms(1) g show ?thesis
        by (cases "orch c") (auto simp: leased_def split: any.splits)
    next
      case (crash n)
      with assms(1) g show ?thesis
        by (cases "orch c") (auto simp: leased_def split: any.splits)
    next
      case (wrote n h' err)
      with assms(1) g show ?thesis
        by (cases "orch c") (auto simp: leased_def split: any.splits)
    qed
  next
    case (sync j)
    from sync(3) assms(1) g show ?thesis
      by (cases rule: sync_stepE) (auto simp: leased_def ret_def split: any.splits)
  qed
qed

lemma reach_leased: "reach data hs p c \<Longrightarrow> leased p c"
proof (induction rule: reach.induct)
  case reach_start
  show ?case by (simp add: leased_def start_def split: prod.splits)
next
  case (reach_step c ev c')
  then show ?case by (auto intro: leased_step reach_shape)
qed

text \<open>A source that stays within the slice it is given never makes a feeder panic.\<close>

lemma reach_feeders_length:
  "reach data hs p c \<Longrightarrow> feeders c = [] \<or> length (feeders c) = length hs"
proof (induction rule: reach.induct)
  case reach_start
  show ?case by (simp add: start_def)
next
  case (reach_step c ev c')
  from reach_step(2) show ?case
  proof (cases rule: stepE)
    case orch
    from orch(3) reach_step(3) show ?thesis
      by (cases rule: orch_stepE) (auto simp: ret_def)
  next
    case (feed j)
    from feed(3) reach_step(3) show ?thesis
      by (cases rule: feeder_stepE) auto
  next
    case (sync j)
    from sync(3) reach_step(3) show ?thesis
      by (cases rule: sync_stepE) (auto simp: ret_def)
  qed
qed

lemma reach_no_panic:
  assumes "reach data hs p c" and "pool_Get p = (ByteSlicePtr b, rest)"
    and "\<And>k. hs \<noteq> [] \<Longrightarrow> clean data k \<Longrightarrow> length (fst (data k)) \<le> length b"
  shows "\<not> panicked c"
  using assms(1)
proof (induction rule: reach.induct)
  case reach_start
  show ?case by (simp add: start_def)
next
  case (reach_step c ev c')
  from reach_step(2) show ?case
  proof (cases rule: stepE)
    case orch
    from orch(3) reach_step(3) show ?thesis
      by (cases rule: orch_stepE) (auto simp: ret_def)
  next
    case (feed j)
    from feed(3) show ?thesis
    proof (cases rule: feeder_stepE)
      case leave
      with reach_step(3) show ?thesis by simp
    next
      case (crash n)
      from reach_calm [OF reach_step(1)] crash
      have n: "n = length (fst (data (nreads c - 1)))" and cl: "clean data (nreads c - 1)"
        by (auto simp: calm_def list_all_length holds_length_def)
      from crash reach_shape [OF reach_step(1)] have "orch c \<noteq> Entry"
        by (auto simp: shape_def)
      with reach_leased [OF reach_step(1)] assms(2) crash have "length (buffer c) = length b"
        by (cases "orch c") (auto simp: leased_def)
      moreover from crash reach_feeders_length [OF reach_step(1)] have "hs \<noteq> []"
        by auto
      ultimately show ?thesis using assms(3) [OF _ cl] n crash by simp
    next
      case (wrote n h' err)
      with reach_step(3) show ?thesis by simp
    qed
  next
    case (sync j)
    from sync(3) reach_step(3) show ?thesis
      by (cases rule: sync_stepE) (auto simp: ret_def)
  qed
qed

lemma stranded_step:
  assumes "stranded c" and "shape hs c" and "step data hs ev c = Some c'"
  shows "stranded c'"
  using assms(3)
proof (cases rule: stepE)
  case orch
  from orch(3) assms(2) show ?thesis
    by (cases rule: orch_stepE)
      (auto simp: stranded_def shape_def ret_def in_round_def list_all_iff)
next
  case (feed j)
  from feed(3) show ?thesis
  proof (cases rule: feeder_stepE)
    case leave
    with assms(1) show ?thesis
      by (cases "orch c") (auto simp: stranded_def split: option.splits)
  next
    case (crash n)
    with assms(1) show ?thesis
      by (cases "orch c") (auto simp: stranded_def split: option.splits)
  next
    case (wrote n h' err)
    have "list_all in_round (feeders c) \<Longrightarrow>
        list_all in_round ((feeders c)[j := \<lparr>hash = h', fpc = SendErr err\<rparr>])"
      by (rule list_all_update) (simp_all add: in_round_def)
    with wrote assms(1) show ?thesis
      by (cases "orch c") (auto simp: stranded_def split: option.splits)
  qed
next
  case (sync j)
  from sync(3) show ?thesis
  proof (cases rule: sync_stepE)
    case (fail i e)
    have "list_all in_round (feeders c) \<Longrightarrow>
        list_all in_round ((feeders c)[j := (feeders c ! j)\<lparr>fpc := WaitReady\<rparr>])"
      by (rule list_all_update) (simp_all add: in_round_def)
    with fail assms(2) show ?thesis
      by (simp add: stranded_def shape_def ret_def)
  qed (simp_all add: stranded_def)
qed

lemma reach_stranded: "reach data hs p c \<Longrightarrow> stranded c"
proof (induction rule: reach.induct)
  case reach_start
  show ?case by (simp add: stranded_def start_def)
next
  case (reach_step c ev c')
  then show ?case by (auto intro: stranded_step reach_shape)
qed

section \<open>Accumulators, and what a return carries\<close>

lemma write_fn_Write: "write_fn (fst (hash_Write h p)) = write_fn h"
  by (simp add: hash_Write_def split: prod.splits)

lemma sum_fn_Write: "sum_fn (fst (hash_Write h p)) = sum_fn h"
  by (simp add: hash_Write_def split: prod.splits)

lemma write_fn_Writes: "write_fn (Writes h ps) = write_fn h"
  by (induction ps arbitrary: h) (simp_all add: Writes_def write_fn_Write)

lemma streaming_Write: "streaming h \<Longrightarrow> streaming (fst (hash_Write h p))"
  by (simp add: streaming_def write_fn_Write)

lemma reliable_Write: "reliable h \<Longrightarrow> snd (hash_Write h p) = None"
proof -
  assume r: "reliable h"
  obtain s e where w: "write_fn h (hstate h) p = (s, e)" by (cases "write_fn h (hstate h) p")
  from r have "snd (write_fn h (hstate h) p) = None" by (simp add: reliable_def)
  with w show ?thesis by (simp add: hash_Write_def)
qed

lemma reliable_Writes: "reliable h \<Longrightarrow> reliable (Writes h ps)"
  by (simp add: reliable_def write_fn_Writes)

lemma Write_empty: "streaming h \<Longrightarrow> fst (hash_Write h []) = h"
proof -
  assume r: "streaming h"
  obtain s e where w: "write_fn h (hstate h) [] = (s, e)" by (cases "write_fn h (hstate h) []")
  from r have "fst (write_fn h (hstate h) []) = hstate h" by (simp add: streaming_def)
  with w show ?thesis by (simp add: hash_Write_def)
qed

lemma Write_append:
  "streaming h \<Longrightarrow> fst (hash_Write h (a @ b)) = fst (hash_Write (fst (hash_Write h a)) b)"
proof -
  assume s: "streaming h"
  obtain s1 e1 where 1: "write_fn h (hstate h) a = (s1, e1)" by (cases "write_fn h (hstate h) a")
  obtain s2 e2 where 2: "write_fn h s1 b = (s2, e2)" by (cases "write_fn h s1 b")
  obtain s3 e3 where 3: "write_fn h (hstate h) (a @ b) = (s3, e3)" by (cases "write_fn h (hstate h) (a @ b)")
  from s have "fst (write_fn h (hstate h) (a @ b)) = fst (write_fn h (fst (write_fn h (hstate h) a)) b)"
    by (simp add: streaming_def)
  with 1 2 3 have "s3 = s2" by simp
  with 1 2 3 show ?thesis by (simp add: hash_Write_def)
qed

lemma Writes_streaming: "streaming h \<Longrightarrow> Writes h ps = fst (hash_Write h (concat ps))"
proof (induction ps arbitrary: h)
  case Nil
  then show ?case by (simp add: Writes_def Write_empty)
next
  case (Cons p ps)
  from Cons.prems have "streaming (fst (hash_Write h p))" by (rule streaming_Write)
  from Cons.IH [OF this] have "Writes (fst (hash_Write h p)) ps = fst (hash_Write (fst (hash_Write h p)) (concat ps))" .
  with Cons.prems show ?case by (simp add: Writes_def Write_append)
qed

lemma ended_unique: "ended data a \<Longrightarrow> ended data b \<Longrightarrow> a = b"
proof (rule ccontr)
  assume a: "ended data a" and b: "ended data b" and n: "a \<noteq> b"
  from a b have "0 < a" "0 < b" by (simp_all add: ended_def)
  with n consider "a - 1 < b - 1" | "b - 1 < a - 1"
    by linarith
  then show False
  proof cases
    case 1
    with a b show ?thesis by (auto simp: ended_def clean_def)
  next
    case 2
    with a b show ?thesis by (auto simp: ended_def clean_def)
  qed
qed

lemma reliable_accepts: "reliable h \<Longrightarrow> accepts data L h"
  by (simp add: accepts_def reliable_Write reliable_Writes)

lemma no_error_return:
  assumes "\<forall>h\<in>set hs. accepts data L h" and "ended data (Suc L)"
    and "pool_Get p = (ByteSlicePtr b, rest)"
    and "reach data hs p c"
  shows "orch c \<noteq> Return hashset (Some e')"
  using assms(4)
proof (induction arbitrary: hashset e' rule: reach.induct)
  case reach_start
  show ?case by (simp add: start_def)
next
  case (reach_step c ev c')
  note fd = reach_fed [OF reach_step(1)] and sh = reach_shape [OF reach_step(1)]
    and le = reach_leased [OF reach_step(1)]
  from assms(2) have L: "clean data L" "fst (data L) = []" "\<exists>e. snd (data L) = Some e \<and> errors_Is e EOF"
    by (simp_all add: ended_def)
  from reach_step(2) show ?case
  proof (cases rule: stepE)
    case orch
    from orch(3) show ?thesis
    proof (cases rule: orch_stepE)
      case (entry_fail v rest')
      with le assms(3) show ?thesis by (simp add: leased_def)
    next
      case (read_err d e)
      with fd have "clean data (nreads c)" by (simp add: fed_def)
      with L have "nreads c \<le> L" by (auto intro: clean_le)
      moreover from read_err L(1) have "\<not> nreads c < L" by (auto simp: clean_def)
      ultimately have "nreads c = L" by simp
      with read_err L show ?thesis by auto
    qed (simp_all add: ret_def)
  next
    case (feed j)
    from feed(3) reach_step(3) show ?thesis
      by (cases rule: feeder_stepE) auto
  next
    case (sync j)
    from sync(3) show ?thesis
    proof (cases rule: sync_stepE)
      case (fail i e)
      with sh have j: "j < length hs" by (simp add: shape_def)
      from fail fd have "all_fed data hs (nreads c) (buffer c) (feeders c) (nreads c)"
        by (simp add: fed_def)
      from all_fedD [OF this j] fail
      have "hash_Write (Writes (hs ! j) (chunks data (nreads c - 1))) (fst (data (nreads c - 1)))
          = (hash (feeders c ! j), Some e)"
        by (simp add: feeder_fed_def)
      then have "snd (hash_Write (Writes (hs ! j) (chunks data (nreads c - 1)))
          (fst (data (nreads c - 1)))) = Some e"
        by simp
      moreover from fail fd have "0 < nreads c" "clean data (nreads c)"
        by (simp_all add: fed_def)
      with L have "nreads c - 1 < L"
        using clean_le [of data "nreads c" L] by auto
      with assms(1) j have "snd (hash_Write (Writes (hs ! j) (chunks data (nreads c - 1)))
          (fst (data (nreads c - 1)))) = None"
        by (simp add: accepts_def)
      ultimately show ?thesis by simp
    qed simp_all
  qed
qed

lemma returns_digests:
  assumes "reach data hs p c" and "orch c = Return hashset None"
  shows "ended data (nreads c) \<and> hashset = digests data (nreads c - 1) hs"
  using reach_fed [OF assms(1)] assms(2) by (simp add: fed_def)

lemma stuck_returned:
  assumes "reach data hs p c" and "stuck data hs c" and "\<not> panicked c"
  shows "returned c"
proof (rule ccontr)
  assume "\<not> returned c"
  then have "\<And>hashset err. orch c \<noteq> Return hashset err"
    by (auto simp: returned_def)
  from progress [OF reach_shape [OF assms(1)] assms(3) this, of data] assms(2)
  show False by (auto simp: stuck_iff)
qed

text \<open>What the call returns on a stream that ends: under every schedule it returns, and
  it returns the digests of the chunks and no error.\<close>

lemma FromReader_result:
  assumes "clean data L" and "data L = ([], Some e)" and "errors_Is e EOF"
    and "pool_Get p = (ByteSlicePtr b, rest)"
    and "hs \<noteq> [] \<Longrightarrow> \<forall>k<L. length (fst (data k)) \<le> length b"
    and "\<forall>h\<in>set hs. accepts data L h"
  shows "FromReader_returns p data hs hashset err \<longleftrightarrow> err = None \<and> hashset = digests data L hs"
    and "reach data hs p c \<Longrightarrow> returned c \<Longrightarrow> nreads c = Suc L"
proof -
  from assms(1-3) have en: "ended data (Suc L)" by (simp add: ended_def)
  have only: "err' = None \<and> hashset' = digests data L hs \<and> nreads c = Suc L"
    if r: "reach data hs p c" and o: "orch c = Return hashset' err'" for c hashset' err'
  proof (cases err')
    case None
    with returns_digests [OF r] o have "ended data (nreads c)"
      and h: "hashset' = digests data (nreads c - 1) hs" by simp_all
    with en have "nreads c = Suc L" by (auto intro: ended_unique)
    with h None show ?thesis by simp
  next
    case (Some e')
    with no_error_return [OF assms(6) en assms(4) r] o show ?thesis by auto
  qed
  have fit: "length (fst (data k)) \<le> length b" if "hs \<noteq> []" "clean data k" for k
  proof -
    from that assms(2) have "k \<le> L" by (auto intro: clean_le)
    with assms(2,5) that show ?thesis by (cases "k = L") auto
  qed
  from assms(2) have "snd (data L) \<noteq> None" by simp
  from some_run_ends [of data L hs p, OF this] obtain c' where r: "reach data hs p c'"
    and s: "stuck data hs c'" by blast
  from reach_no_panic [OF r assms(4) fit] have "\<not> panicked c'" .
  from stuck_returned [OF r s this] obtain hashset' err' where "orch c' = Return hashset' err'"
    by (auto simp: returned_def split: FromReader_pc.splits)
  with only [OF r] r have "FromReader_returns p data hs (digests data L hs) None"
    by (auto simp: FromReader_returns_def)
  with only show "FromReader_returns p data hs hashset err \<longleftrightarrow> err = None \<and> hashset = digests data L hs"
    by (auto simp: FromReader_returns_def)
  show "nreads c = Suc L" if "reach data hs p c" "returned c"
    using that only [of c] by (auto simp: returned_def split: FromReader_pc.splits)
qed

text \<open>A run under a given schedule shows what the call can return.\<close>

lemma outcome_reach:
  assumes "outcome data hs p evs = Some (pc, fs, ds, en)"
  obtains c where "reach data hs p c" "orch c = pc" "map fpc (feeders c) = fs"
    "map (\<lambda>f. hash_Sum (hash f)) (feeders c) = ds" "enabled data hs c = en"
proof -
  from assms obtain c where e: "exec data hs evs (start p) = Some c"
    and o: "orch c = pc" "map fpc (feeders c) = fs"
      "map (\<lambda>f. hash_Sum (hash f)) (feeders c) = ds" "enabled data hs c = en"
    by (auto simp: outcome_def split: option.splits)
  from exec_reach [OF reach_start e] o that show ?thesis by blast
qed

lemma outcome_returns:
  "outcome data hs p evs = Some (Return hashset err, fs, ds, en)
     \<Longrightarrow> FromReader_returns p data hs hashset err"
  by (erule outcome_reach) (auto simp: FromReader_returns_def)

text \<open>The equations that evaluate a run on concrete inputs.\<close>

lemmas run_eval = outcome_def pool_after_def step_def orch_step_def feeder_step_def sync_step_def
  start_def ret_def pool_Get_def pool_New_def pool_Put_def read_into_def spawn_def enabled_def
  events_def hash_Write_def hash_Sum_def Let_def bufferSize_def

text \<open>On a stream whose first read reports its end, no \<^verbatim>\<open>Write\<close> takes place.\<close>

lemma empty_stream_result:
  assumes "data 0 = ([], Some e)" and "errors_Is e EOF" and "pool_Get p = (ByteSlicePtr b, rest)"
  shows "FromReader_returns p data hs hashset err \<longleftrightarrow> err = None \<and> hashset = map hash_Sum hs"
proof -
  have "clean data 0" by (simp add: clean_def)
  from FromReader_result(1) [OF this assms, of hs hashset err] show ?thesis
    by (simp add: accepts_def digests_def chunks_def Writes_Nil)
qed

lemma pool_Get_empty: "pool_Get [] = (ByteSlicePtr (replicate bufferSize 0), [])"
  by (simp add: pool_Get_def pool_New_def)

text \<open>With no accumulators, on a stream that ends with a read of no bytes: the empty
  digest sequence and no error, after every read was made.\<close>

lemma no_accumulators_ended_stream:
  assumes "clean data L" and "data L = ([], Some e)" and "errors_Is e EOF"
    and "pool_Get p = (ByteSlicePtr b, rest)"
  shows "(FromReader_returns p data [] hashset err \<longleftrightarrow> hashset = [] \<and> err = None)
    \<and> (\<forall>c. reach data [] p c \<and> returned c \<longrightarrow> nreads c = Suc L)"
  using FromReader_result [OF assms, of "[]"]
  by (auto simp: digests_def)

section \<open>A source that never ends\<close>

lemma idle_never_returns:
  assumes "\<forall>k. data k = ([], None)" and "pool_Get p = (ByteSlicePtr b, rest)"
    and "\<forall>h\<in>set hs. \<forall>s. snd (write_fn h s []) = None"
    and "reach data hs p c"
  shows "orch c \<noteq> Collect i hashset \<and> orch c \<noteq> Return hashset err"
  using assms(4)
proof (induction arbitrary: i hashset err rule: reach.induct)
  case reach_start
  show ?case by (simp add: start_def)
next
  case (reach_step c ev c')
  note fd = reach_fed [OF reach_step(1)] and sh = reach_shape [OF reach_step(1)]
    and le = reach_leased [OF reach_step(1)]
  from reach_step(2) show ?case
  proof (cases rule: stepE)
    case orch
    from orch(3) show ?thesis
    proof (cases rule: orch_stepE)
      case (entry_fail v rest')
      with le assms(2) show ?thesis by (simp add: leased_def)
    next
      case (read_eof e)
      with assms(1) show ?thesis by simp
    next
      case (read_err d e)
      with assms(1) show ?thesis by simp
    next
      case (collect_done i' hashset')
      with reach_step(3) [of i' hashset'] show ?thesis by simp
    qed simp_all
  next
    case (feed j)
    from feed(3) reach_step(3) show ?thesis
      by (cases rule: feeder_stepE) auto
  next
    case (sync j)
    from sync(3) show ?thesis
    proof (cases rule: sync_stepE)
      case (fail i' e)
      with sh have j: "j < length hs" by (simp add: shape_def)
      from fail fd have "all_fed data hs (nreads c) (buffer c) (feeders c) (nreads c)"
        by (simp add: fed_def)
      from all_fedD [OF this j] fail assms(1)
      have "hash_Write (Writes (hs ! j) (chunks data (nreads c - 1))) [] = (hash (feeders c ! j), Some e)"
        by (simp add: feeder_fed_def)
      then have "snd (write_fn (hs ! j) (hstate (Writes (hs ! j) (chunks data (nreads c - 1)))) []) = Some e"
        by (auto simp: hash_Write_def write_fn_Writes split: prod.splits)
      with assms(3) j show ?thesis by simp
    next
      case (collect hashset' d)
      with reach_step(3) [of j hashset'] show ?thesis by simp
    qed simp_all
  qed
qed

lemma endless_run:
  assumes "\<And>c. reach data hs p c \<Longrightarrow> \<exists>ev c'. step data hs ev c = Some c'"
  shows "\<exists>run. infinite_run data hs p run"
proof -
  define next_of where "next_of c = (SOME c'. \<exists>ev. step data hs ev c = Some c')" for c
  define run where "run = rec_nat (start p) (\<lambda>i c. next_of c)"
  have run_Suc: "run (Suc i) = next_of (run i)" for i by (simp add: run_def)
  have r: "reach data hs p (run i)" for i
  proof (induction i)
    case 0
    show ?case by (simp add: run_def reach_start)
  next
    case (Suc i)
    from assms [OF Suc] have "\<exists>c'. \<exists>ev. step data hs ev (run i) = Some c'" by blast
    then have "\<exists>ev. step data hs ev (run i) = Some (next_of (run i))"
      unfolding next_of_def by (rule someI_ex)
    with Suc show ?case by (auto simp: run_Suc intro: reach_step)
  qed
  have "\<exists>ev. step data hs ev (run i) = Some (run (Suc i))" for i
  proof -
    from assms [OF r [of i]] have "\<exists>c'. \<exists>ev. step data hs ev (run i) = Some c'" by blast
    then have "\<exists>ev. step data hs ev (run i) = Some (next_of (run i))"
      unfolding next_of_def by (rule someI_ex)
    then show ?thesis by (simp add: run_Suc)
  qed
  moreover have "run 0 = start p" by (simp add: run_def)
  ultimately have "infinite_run data hs p run"
    by (simp add: infinite_run_def)
  then show ?thesis by blast
qed

text \<open>A source whose first read reports an error that is not the end of the stream with
  no bytes: the call returns that error at once and no feeder is ever sent a signal.\<close>

lemma first_read_error:
  assumes "data 0 = (d, Some e)" and "\<not> (d = [] \<and> errors_Is e EOF)"
    and "reach data hs p c"
  shows "\<not> closed c \<and> (feeders c = [] \<or> feeders c = map spawn hs)
    \<and> (orch c = Entry \<and> nreads c = 0 \<or> orch c = Reading \<and> nreads c = 0
        \<or> orch c = Return [] (Some ErrBufferGetFailed) \<or> orch c = Return [] (Some e))"
  using assms(3)
proof (induction rule: reach.induct)
  case reach_start
  show ?case by (simp add: start_def)
next
  case (reach_step c ev c')
  from reach_step(2) show ?case
  proof (cases rule: stepE)
    case orch
    from orch(3) reach_step(3) assms(1,2) show ?thesis
      by (cases rule: orch_stepE) (auto simp: ret_def)
  next
    case (feed j)
    from feed(3) reach_step(3) show ?thesis
      by (cases rule: feeder_stepE) (auto simp: spawn_def)
  next
    case (sync j)
    from sync(3) reach_step(3) show ?thesis
      by (cases rule: sync_stepE) auto
  qed
qed

section \<open>Rounds end\<close>

text \<open>Only \<^verbatim>\<open>data.Read\<close> moves the count of reads, and between two reads only finitely
  many steps can be taken: a run that never ends comes back to \<^verbatim>\<open>data.Read\<close> again and
  again, once for every count.\<close>

lemma step_nreads:
  assumes "step data hs ev c = Some c'"
  shows "nreads c' = nreads c \<or> orch c = Reading \<and> nreads c' = Suc (nreads c)"
  using assms
proof (cases rule: stepE)
  case orch
  from orch(3) show ?thesis
    by (cases rule: orch_stepE) (auto simp: ret_def)
next
  case (feed j)
  from feed(3) show ?thesis
    by (cases rule: feeder_stepE) auto
next
  case (sync j)
  from sync(3) show ?thesis
    by (cases rule: sync_stepE) (auto simp: ret_def)
qed

lemma reading_step:
  assumes "shape hs c" and "orch c = Reading" and "step data hs ev c = Some c'"
  shows "nreads c' = Suc (nreads c)"
  using assms(3)
proof (cases rule: stepE)
  case orch
  from orch(3) assms(2) show ?thesis
    by (cases rule: orch_stepE) (auto simp: ret_def)
next
  case (feed j)
  from feed(3) assms(1,2) show ?thesis
    by (cases rule: feeder_stepE) (auto simp: shape_def list_all_length)
next
  case (sync j)
  from sync(3) assms(2) show ?thesis
    by (cases rule: sync_stepE) auto
qed

lemma step_in_round:
  assumes "fed data hs c" and "step data hs ev c = Some c'" and "nreads c' = nreads c"
  shows "(c', c) \<in> measures [\<lambda>c. reads_left (nreads c) c, loop_left, feeds_left]"
  using assms(2)
proof (cases rule: stepE)
  case orch
  from orch(3) assms(1,3) show ?thesis
    by (cases rule: orch_stepE) (auto simp: reads_left_def loop_left_def ret_def fed_def)
next
  case (feed j)
  from feed(3) show ?thesis
  proof (cases rule: feeder_stepE)
    case leave
    let ?f = "(feeders c ! j)\<lparr>fpc := SendSum (hash_Sum (hash (feeders c ! j)))\<rparr>"
    from leave have "Suc (length (filter movable ((feeders c)[j := ?f]))) = length (filter movable (feeders c))"
      by (intro filter_update_loss) (simp_all add: movable_simps)
    with leave feed(1) show ?thesis
      by (simp add: rank_feeders feeds_left_def)
  next
    case (crash n)
    with feed(1) show ?thesis
      by (simp add: rank_feeders feeds_left_def)
  next
    case (wrote n h' err)
    let ?f = "\<lparr>hash = h', fpc = SendErr err\<rparr>"
    from wrote have "Suc (length (filter movable ((feeders c)[j := ?f]))) = length (filter movable (feeders c))"
      by (intro filter_update_loss) (simp_all add: movable_simps)
    with wrote feed(1) show ?thesis
      by (simp add: rank_feeders feeds_left_def)
  qed
next
  case (sync j)
  from sync(3) assms(1) show ?thesis
    by (cases rule: sync_stepE) (auto simp: reads_left_def loop_left_def ret_def)
qed

lemma wf_round:
  "wf {(c', c). reach data hs p c \<and> (\<exists>ev. step data hs ev c = Some c') \<and> nreads c' = nreads c}"
proof (rule wf_subset)
  show "wf (measures [\<lambda>c. reads_left (nreads c) c, loop_left, feeds_left :: 's config \<Rightarrow> nat])"
    by simp
  show "{(c', c). reach data hs p c \<and> (\<exists>ev. step data hs ev c = Some c') \<and> nreads c' = nreads c}
      \<subseteq> measures [\<lambda>c. reads_left (nreads c) c, loop_left, feeds_left]"
    by (auto intro!: step_in_round reach_fed)
qed

lemma run_step:
  "infinite_run data hs p run \<Longrightarrow> \<exists>ev. step data hs ev (run i) = Some (run (Suc i))"
  by (simp add: infinite_run_def)

lemma run_reads_again:
  assumes "infinite_run data hs p run"
  shows "\<exists>j\<ge>i. nreads (run (Suc j)) \<noteq> nreads (run j)"
proof (rule ccontr)
  assume "\<not> (\<exists>j\<ge>i. nreads (run (Suc j)) \<noteq> nreads (run j))"
  then have same: "nreads (run (Suc (i + n))) = nreads (run (i + n))" for n by simp
  have "(run (Suc (i + n)), run (i + n))
      \<in> {(c', c). reach data hs p c \<and> (\<exists>ev. step data hs ev c = Some c') \<and> nreads c' = nreads c}" for n
    using run_reach [OF assms, of "i + n"] run_step [OF assms, of "i + n"] same [of n] by simp
  then have "\<forall>n. (run (i + Suc n), run (i + n))
      \<in> {(c', c). reach data hs p c \<and> (\<exists>ev. step data hs ev c = Some c') \<and> nreads c' = nreads c}"
    by simp
  then have "\<exists>f. \<forall>n. (f (Suc n), f n)
      \<in> {(c', c). reach data hs p c \<and> (\<exists>ev. step data hs ev c = Some c') \<and> nreads c' = nreads c}"
    by (intro exI [of _ "\<lambda>n. run (i + n)"])
  moreover have "\<nexists>f. \<forall>n. (f (Suc n), f n)
      \<in> {(c', c). reach data hs p c \<and> (\<exists>ev. step data hs ev c = Some c') \<and> nreads c' = nreads c}"
    using wf_round [of data hs p] unfolding wf_iff_no_infinite_down_chain .
  ultimately show False by blast
qed

lemma constant_until:
  "(\<And>m. i \<le> m \<Longrightarrow> m < j \<Longrightarrow> f (Suc m) = (f m :: nat)) \<Longrightarrow> i \<le> j \<Longrightarrow> f j = f i"
proof (induction j)
  case 0
  then show ?case by simp
next
  case (Suc j)
  show ?case
  proof (cases "i = Suc j")
    case True
    then show ?thesis by simp
  next
    case False
    with Suc.prems(2) have l: "i \<le> j" by simp
    from Suc.prems(1) have "f j = f i" by (intro Suc.IH l) simp_all
    moreover from Suc.prems(1) [of j] l have "f (Suc j) = f j" by simp
    ultimately show ?thesis by simp
  qed
qed

lemma run_next_read:
  assumes "infinite_run data hs p run"
  shows "\<exists>j\<ge>i. orch (run j) = Reading \<and> nreads (run j) = nreads (run i)"
proof -
  define P where "P j \<longleftrightarrow> i \<le> j \<and> nreads (run (Suc j)) \<noteq> nreads (run j)" for j
  from run_reads_again [OF assms, of i] have "\<exists>j. P j" by (auto simp: P_def)
  then obtain j where j: "P j" and least: "\<And>m. m < j \<Longrightarrow> \<not> P m"
    using exists_least_iff [of P] by auto
  from j have ij: "i \<le> j" and ch: "nreads (run (Suc j)) \<noteq> nreads (run j)"
    by (simp_all add: P_def)
  have "nreads (run j) = nreads (run i)"
  proof (rule constant_until [OF _ ij])
    fix m assume "i \<le> m" "m < j"
    with least [of m] show "nreads (run (Suc m)) = nreads (run m)" by (simp add: P_def)
  qed
  moreover from run_step [OF assms, of j] obtain ev where "step data hs ev (run j) = Some (run (Suc j))"
    by blast
  from step_nreads [OF this] ch have "orch (run j) = Reading" by simp
  ultimately show ?thesis using ij by blast
qed

lemma run_reads_every_count:
  assumes "infinite_run data hs p run"
  shows "\<exists>i. orch (run i) = Reading \<and> nreads (run i) = k"
proof (induction k)
  case 0
  from assms have "nreads (run 0) = 0" by (simp add: infinite_run_def start_def)
  with run_next_read [OF assms, of 0] show ?case by auto
next
  case (Suc k)
  then obtain i where i: "orch (run i) = Reading" "nreads (run i) = k" by blast
  from run_step [OF assms, of i] obtain ev where "step data hs ev (run i) = Some (run (Suc i))"
    by blast
  from reading_step [OF reach_shape [OF run_reach [OF assms]] i(1) this] i(2)
  have "nreads (run (Suc i)) = Suc k" by simp
  with run_next_read [OF assms, of "Suc i"] show ?case by auto
qed

lemma chunks_idle: "\<forall>k. data k = ([], None) \<Longrightarrow> chunks data k = replicate k []"
  by (simp add: chunks_def map_replicate_const)

lemma reading_hashes:
  assumes "reach data hs p c" and "orch c = Reading" and "j < length hs"
  shows "hash (feeders c ! j) = Writes (hs ! j) (chunks data (nreads c))"
proof -
  from reach_shape [OF assms(1)] assms(2) have w: "list_all (\<lambda>f. fpc f = WaitReady) (feeders c)"
    and l: "length (feeders c) = length hs"
    by (simp_all add: shape_def)
  from reach_fed [OF assms(1)] assms(2)
  have a: "all_fed data hs (nreads c) (buffer c) (feeders c) (nreads c)"
    by (simp add: fed_def)
  from all_fedD [OF a assms(3)] w l assms(3) show ?thesis
    by (simp add: feeder_fed_def list_all_length)
qed

section \<open>The digests of the scenarios, evaluated\<close>

lemma replicate_numeral_eval: "replicate (numeral k) x = x # replicate (pred_numeral k) x"
  by (simp add: numeral_eq_Suc)

lemmas word32_eval = add32_def not32_def rotl32_def rotr32_def be32_def le32_def
  bytes_be32_def bytes_le32_def bytes_be64_def bytes_le64_def

lemma pad_zeros_short: "len < 56 \<Longrightarrow> pad_zeros len = 55 - len"
proof -
  assume l: "len < 56"
  then have "119 - len mod 64 = 64 + (55 - len)" by simp
  moreover have "(64 + (55 - len)) mod 64 = (55 - len) mod 64" by (rule mod_add_self1)
  moreover have "(55 - len) mod 64 = 55 - len" by simp
  ultimately show ?thesis by (simp only: pad_zeros_def)
qed

lemma blocks_one: "length m = 64 \<Longrightarrow> blocks (length m div 64) m = [m]"
proof -
  assume l: "length m = 64"
  then have "length m div 64 = Suc 0" by simp
  moreover from l have "take 64 m = m" by simp
  ultimately show ?thesis by (simp only: blocks.simps)
qed

lemma sha_pad_short: "length m < 56 \<Longrightarrow> length (sha_pad m) = 64"
  by (simp add: sha_pad_def pad_zeros_short bytes_be64_def bytes_be32_def)

lemma md5_pad_short: "length m < 56 \<Longrightarrow> length (md5_pad m) = 64"
  by (simp add: md5_pad_def pad_zeros_short bytes_le64_def bytes_le32_def)

lemma sha256_short:
  assumes "length m < 56"
  shows "sha256 m = concat (map bytes_be32 (sha256_block
    [0x6a09e667, 0xbb67ae85, 0x3c6ef372, 0xa54ff53a, 0x510e527f, 0x9b05688c, 0x1f83d9ab, 0x5be0cd19]
    (sha_pad m)))"
proof -
  from assms have "blocks (length (sha_pad m) div 64) (sha_pad m) = [sha_pad m]"
    by (intro blocks_one sha_pad_short)
  then show ?thesis by (simp only: sha256_def foldl.simps)
qed

lemma sha1_short:
  assumes "length m < 56"
  shows "sha1 m = concat (map bytes_be32 (sha1_block
    [0x67452301, 0xefcdab89, 0x98badcfe, 0x10325476, 0xc3d2e1f0] (sha_pad m)))"
proof -
  from assms have "blocks (length (sha_pad m) div 64) (sha_pad m) = [sha_pad m]"
    by (intro blocks_one sha_pad_short)
  then show ?thesis by (simp only: sha1_def foldl.simps)
qed

lemma md5_short:
  assumes "length m < 56"
  shows "md5 m = concat (map bytes_le32 (md5_block
    [0x67452301, 0xefcdab89, 0x98badcfe, 0x10325476] (md5_pad m)))"
proof -
  from assms have "blocks (length (md5_pad m) div 64) (md5_pad m) = [md5_pad m]"
    by (intro blocks_one md5_pad_short)
  then show ?thesis by (simp only: md5_def foldl.simps)
qed

lemma upt_64: "[0..<64] = [0, 1, 2, 3, 4, 5, 6, 7, 8, 9, 10, 11, 12, 13, 14, 15, 16, 17, 18, 19, 20, 21, 22, 23, 24, 25, 26, 27, 28, 29, 30, 31, 32, 33, 34, 35, 36, 37, 38, 39, 40, 41, 42, 43, 44, 45, 46, 47, 48, 49, 50, 51, 52, 53, 54, 55, 56, 57, 58, 59, 60, 61, 62, 63]"
  by (simp add: upt_rec)

lemma upt_80: "[0..<80] = [0, 1, 2, 3, 4, 5, 6, 7, 8, 9, 10, 11, 12, 13, 14, 15, 16, 17, 18, 19, 20, 21, 22, 23, 24, 25, 26, 27, 28, 29, 30, 31, 32, 33, 34, 35, 36, 37, 38, 39, 40, 41, 42, 43, 44, 45, 46, 47, 48, 49, 50, 51, 52, 53, 54, 55, 56, 57, 58, 59, 60, 61, 62, 63, 64, 65, 66, 67, 68, 69, 70, 71, 72, 73, 74, 75, 76, 77, 78, 79]"
  by (simp add: upt_rec)

lemma bytes_of_abc: "bytes_of ''abc'' = [97, 98, 99]"
  by (simp add: bytes_of_def)

subsection \<open>SHA-256 of the empty message\<close>

lemma sha_pad_empty: "sha_pad [] = [128, 0, 0, 0, 0, 0, 0, 0, 0, 0, 0, 0, 0, 0, 0, 0, 0, 0, 0, 0, 0, 0, 0, 0, 0, 0, 0, 0, 0, 0, 0, 0, 0, 0, 0, 0, 0, 0, 0, 0, 0, 0, 0, 0, 0, 0, 0, 0, 0, 0, 0, 0, 0, 0, 0, 0, 0, 0, 0, 0, 0, 0, 0, 0]"
  by (simp add: sha_pad_def pad_zeros_def word32_eval replicate_numeral_eval)

lemma words_sha256_empty: "words_be [128, 0, 0, 0, 0, 0, 0, 0, 0, 0, 0, 0, 0, 0, 0, 0, 0, 0, 0, 0, 0, 0, 0, 0, 0, 0, 0, 0, 0, 0, 0, 0, 0, 0, 0, 0, 0, 0, 0, 0, 0, 0, 0, 0, 0, 0, 0, 0, 0, 0, 0, 0, 0, 0, 0, 0, 0, 0, 0, 0, 0, 0, 0, 0] = [2147483648, 0, 0, 0, 0, 0, 0, 0, 0, 0, 0, 0, 0, 0, 0, 0]"
  by (simp add: word32_eval)

lemma rounds_sha256_empty: "sha256_rounds K256 [2147483648, 0, 0, 0, 0, 0, 0, 0, 0, 0, 0, 0, 0, 0, 0, 0] [1779033703, 3144134277, 1013904242, 2773480762, 1359893119, 2600822924, 528734635, 1541459225] = [2040978907, 3717492111, 1586299222, 4095722474, 3600805733, 3382061760, 2232532848, 477227836]"
  by (simp add: K256_def sha256_t1_def sha256_t2_def sha256_next_def word32_eval)

lemma block_sha256_empty: "sha256_block [1779033703, 3144134277, 1013904242, 2773480762, 1359893119, 2600822924, 528734635, 1541459225] (sha_pad []) = [3820012610, 2566659092, 2600203464, 2574235940, 665731556, 1687917388, 2761267483, 2018687061]"
  by (simp only: sha_pad_empty sha256_block_def words_sha256_empty rounds_sha256_empty)
    (simp add: add32_def)

lemma sha256_empty: "sha256 [] = [227, 176, 196, 66, 152, 252, 28, 20, 154, 251, 244, 200, 153, 111, 185, 36, 39, 174, 65, 228, 100, 155, 147, 76, 164, 149, 153, 27, 120, 82, 184, 85]"
  by (simp add: sha256_short block_sha256_empty bytes_be32_def)

lemma hex_sha256_empty: "hex (sha256 []) = ''e3b0c44298fc1c149afbf4c8996fb92427ae41e4649b934ca495991b7852b855''"
  by (simp add: sha256_empty hex_def hexdigit_def)

subsection \<open>SHA-1 of abc\<close>

lemma sha_pad_abc: "sha_pad [97, 98, 99] = [97, 98, 99, 128, 0, 0, 0, 0, 0, 0, 0, 0, 0, 0, 0, 0, 0, 0, 0, 0, 0, 0, 0, 0, 0, 0, 0, 0, 0, 0, 0, 0, 0, 0, 0, 0, 0, 0, 0, 0, 0, 0, 0, 0, 0, 0, 0, 0, 0, 0, 0, 0, 0, 0, 0, 0, 0, 0, 0, 0, 0, 0, 0, 24]"
  by (simp add: sha_pad_def pad_zeros_def word32_eval replicate_numeral_eval)

lemma words_sha1_abc: "words_be [97, 98, 99, 128, 0, 0, 0, 0, 0, 0, 0, 0, 0, 0, 0, 0, 0, 0, 0, 0, 0, 0, 0, 0, 0, 0, 0, 0, 0, 0, 0, 0, 0, 0, 0, 0, 0, 0, 0, 0, 0, 0, 0, 0, 0, 0, 0, 0, 0, 0, 0, 0, 0, 0, 0, 0, 0, 0, 0, 0, 0, 0, 0, 24] = [1633837952, 0, 0, 0, 0, 0, 0, 0, 0, 0, 0, 0, 0, 0, 0, 24]"
  by (simp add: word32_eval)

lemma rounds_sha1_abc: "sha1_rounds [0..<80] [1633837952, 0, 0, 0, 0, 0, 0, 0, 0, 0, 0, 0, 0, 0, 0, 24] [1732584193, 4023233417, 2562383102, 271733878, 3285377520] = [1112808245, 1463342561, 562251891, 1746824694, 3640522413]"
  by (simp add: upt_80 sha1_f_def sha1_k_def sha1_next_def word32_eval)

lemma block_sha1_abc: "sha1_block [1732584193, 4023233417, 2562383102, 271733878, 3285377520] (sha_pad [97, 98, 99]) = [2845392438, 1191608682, 3124634993, 2018558572, 2630932637]"
  by (simp only: sha_pad_abc sha1_block_def words_sha1_abc rounds_sha1_abc)
    (simp add: add32_def)

lemma sha1_abc: "sha1 [97, 98, 99] = [169, 153, 62, 54, 71, 6, 129, 106, 186, 62, 37, 113, 120, 80, 194, 108, 156, 208, 216, 157]"
  by (simp add: sha1_short block_sha1_abc bytes_be32_def)

lemma hex_sha1_abc: "hex (sha1 (bytes_of ''abc'')) = ''a9993e364706816aba3e25717850c26c9cd0d89d''"
  by (simp add: bytes_of_abc sha1_abc hex_def hexdigit_def)

subsection \<open>MD5 of abc\<close>

lemma md5_pad_abc: "md5_pad [97, 98, 99] = [97, 98, 99, 128, 0, 0, 0, 0, 0, 0, 0, 0, 0, 0, 0, 0, 0, 0, 0, 0, 0, 0, 0, 0, 0, 0, 0, 0, 0, 0, 0, 0, 0, 0, 0, 0, 0, 0, 0, 0, 0, 0, 0, 0, 0, 0, 0, 0, 0, 0, 0, 0, 0, 0, 0, 0, 24, 0, 0, 0, 0, 0, 0, 0]"
  by (simp add: md5_pad_def pad_zeros_def word32_eval replicate_numeral_eval)

lemma words_md5_abc: "words_le [97, 98, 99, 128, 0, 0, 0, 0, 0, 0, 0, 0, 0, 0, 0, 0, 0, 0, 0, 0, 0, 0, 0, 0, 0, 0, 0, 0, 0, 0, 0, 0, 0, 0, 0, 0, 0, 0, 0, 0, 0, 0, 0, 0, 0, 0, 0, 0, 0, 0, 0, 0, 0, 0, 0, 0, 24, 0, 0, 0, 0, 0, 0, 0] = [2153996897, 0, 0, 0, 0, 0, 0, 0, 0, 0, 0, 0, 0, 0, 24, 0]"
  by (simp add: word32_eval)

lemma rounds_md5_abc: "md5_rounds [2153996897, 0, 0, 0, 0, 0, 0, 0, 0, 0, 0, 0, 0, 0, 24, 0] [0..<64] [1732584193, 4023233417, 2562383102, 271733878] = [822795919, 3229755059, 3833903576, 1649249458]"
  by (simp add: upt_64 md5_T_def md5_S_def md5_f_def md5_g_def word32_eval)

lemma block_md5_abc: "md5_block [1732584193, 4023233417, 2562383102, 271733878] (md5_pad [97, 98, 99]) = [2555380112, 2958021180, 2101319382, 1920983336]"
  by (simp only: md5_pad_abc md5_block_def words_md5_abc rounds_md5_abc)
    (simp add: add32_def)

lemma md5_abc: "md5 [97, 98, 99] = [144, 1, 80, 152, 60, 210, 79, 176, 214, 150, 63, 125, 40, 225, 127, 114]"
  by (simp add: md5_short block_md5_abc bytes_le32_def)

lemma hex_md5_abc: "hex (md5 (bytes_of ''abc'')) = ''900150983cd24fb0d6963f7d28e17f72''"
  by (simp add: bytes_of_abc md5_abc hex_def hexdigit_def)

section \<open>Properties\<close>

text \<open>
  C8. The unavailable-algorithm error is matched by condition and not by identity: for
  every \<^verbatim>\<open>crypto.Hash\<close> value \<open>h\<close> the error \<open>UnavailableHashFunctionError h\<close> is a
  value different from the sentinel \<open>ErrHashFunctionNotAvailable\<close>, yet \<open>errors_Is\<close>
  matches it against the sentinel, also through any wrapping layer, whatever \<open>h\<close> is.
\<close>

theorem unavailable_hash_error_is_sentinel:
  "errors_Is (UnavailableHashFunctionError h) ErrHashFunctionNotAvailable
   \<and> UnavailableHashFunctionError h \<noteq> ErrHashFunctionNotAvailable
   \<and> errors_Is (Wrapped msg (UnavailableHashFunctionError h)) ErrHashFunctionNotAvailable"
  by simp

text \<open>
  C1. For every input stream and every list of hash accumulators, the digest at position
  \<open>i\<close> that \<^verbatim>\<open>FromReader\<close> returns is the digest accumulator \<open>i\<close> gives after one
  \<^verbatim>\<open>Write\<close> of the whole stream: the chunks in which the source hands out the stream do
  not show in the result. The accumulators take a stream in pieces (an empty write changes
  nothing, two writes in a row are one write of both pieces). First, for any source and
  under any schedule: whenever the call returns digests, the last read was the end of the
  stream, the reads before it reported no error, and the digests are those of one write
  of all their bytes. Second, for a source whose reads report no error until one reports
  the end of the stream with no bytes, each read within the capacity of the buffer, and
  accumulators that report no write error: the call does return, and what it returns is
  these digests and no error, nothing else.
\<close>

theorem FromReader_chunking_unobservable:
  assumes "\<forall>h\<in>set hashFunctions. streaming h"
  shows "(\<forall>c. reach data hashFunctions p c \<and> orch c = Return hashset None \<longrightarrow>
            ended data (nreads c)
            \<and> hashset = map (\<lambda>h. hash_Sum (fst (hash_Write h (concat (chunks data (nreads c - 1))))))
                           hashFunctions)
    \<and> ((\<forall>h\<in>set hashFunctions. reliable h)
        \<and> clean data L \<and> data L = ([], Some e) \<and> errors_Is e EOF
        \<and> pool_Get p = (ByteSlicePtr b, rest)
        \<and> (\<forall>k<L. length (fst (data k)) \<le> length b)
       \<longrightarrow> (FromReader_returns p data hashFunctions hashes err \<longleftrightarrow>
              err = None
              \<and> hashes = map (\<lambda>h. hash_Sum (fst (hash_Write h (concat (chunks data L)))))
                             hashFunctions))"
proof (intro conjI allI impI)
  fix c
  assume "reach data hashFunctions p c \<and> orch c = Return hashset None"
  then have "ended data (nreads c)"
    and "hashset = digests data (nreads c - 1) hashFunctions"
    using returns_digests [of data hashFunctions p c hashset] by simp_all
  with assms show "ended data (nreads c)"
    and "hashset = map (\<lambda>h. hash_Sum (fst (hash_Write h (concat (chunks data (nreads c - 1))))))
      hashFunctions"
    by (simp_all add: digests_def Writes_streaming)
next
  assume a: "(\<forall>h\<in>set hashFunctions. reliable h)
      \<and> clean data L \<and> data L = ([], Some e) \<and> errors_Is e EOF
      \<and> pool_Get p = (ByteSlicePtr b, rest)
      \<and> (\<forall>k<L. length (fst (data k)) \<le> length b)"
  from assms have d: "digests data L hashFunctions
      = map (\<lambda>h. hash_Sum (fst (hash_Write h (concat (chunks data L))))) hashFunctions"
    by (simp add: digests_def Writes_streaming)
  from a have r: "\<forall>h\<in>set hashFunctions. accepts data L h"
    by (simp add: reliable_accepts)
  from a have "clean data L" "data L = ([], Some e)" "errors_Is e EOF"
    "pool_Get p = (ByteSlicePtr b, rest)" "\<forall>k<L. length (fst (data k)) \<le> length b"
    by simp_all
  from FromReader_result(1) [OF this(1-4) _ r] this(5) d
  show "FromReader_returns p data hashFunctions hashes err \<longleftrightarrow>
      err = None
      \<and> hashes = map (\<lambda>h. hash_Sum (fst (hash_Write h (concat (chunks data L))))) hashFunctions"
    by simp
qed

theorem FromReader_chunking_unobservable_witness:
  "FromReader_returns [] (chunk_reader [[1, 2], [3]]) [checksum, checksum] [[6], [6]] None
   \<and> \<not> FromReader_returns [] (chunk_reader [[1, 2], [3]]) [checksum, checksum] [[3], [3]] None
   \<and> \<not> (\<exists>c. reach (data_err_reader [1, 2, 3]) [checksum] [] c \<and> orch c = Return [[6]] None)"
proof -
  let ?data = "chunk_reader [[1, 2], [3]]"
  have 1: "\<forall>h\<in>set [checksum, checksum]. streaming h"
    by (simp add: streaming_def checksum_def)
  have f: "length (fst (?data k)) \<le> length (replicate bufferSize (0 :: byte))" for k
    by (simp add: chunk_reader_def bufferSize_def nth_Cons')
  have cl: "clean ?data 2"
    by (simp add: clean_def chunk_reader_def)
  have rl: "\<forall>h\<in>set [checksum, checksum]. reliable h"
    by (simp add: reliable_def checksum_def)
  have e: "?data 2 = ([], Some EOF)"
    by (simp add: chunk_reader_def)
  from rl cl e f pool_Get_empty
  have 2: "(\<forall>h\<in>set [checksum, checksum]. reliable h)
      \<and> clean ?data 2 \<and> ?data 2 = ([], Some EOF) \<and> errors_Is EOF EOF
      \<and> pool_Get [] = (ByteSlicePtr (replicate bufferSize 0), [])
      \<and> (\<forall>k<2. length (fst (?data k)) \<le> length (replicate bufferSize (0 :: byte)))"
    by simp
  have 3: "map (\<lambda>h. hash_Sum (fst (hash_Write h (concat (chunks ?data 2))))) [checksum, checksum]
      = [[6], [6]]"
    by (simp add: chunks_def chunk_reader_def hash_Sum_def hash_Write_def checksum_def
        numeral_2_eq_2)
  have r: "FromReader_returns [] ?data [checksum, checksum] hashes err \<longleftrightarrow>
      err = None \<and> hashes = [[6], [6]]" for hashes err
    using FromReader_chunking_unobservable [OF 1, where data = ?data and p = "[]" and L = 2
        and e = EOF and b = "replicate bufferSize 0" and rest = "[]" and hashes = hashes
        and err = err, THEN conjunct2, THEN mp, OF 2]
    by (simp only: 3)
  have 4: "\<forall>h\<in>set [checksum]. streaming h"
    by (simp add: streaming_def checksum_def)
  have n: "orch c \<noteq> Return [[6]] None"
    if c: "reach (data_err_reader [1, 2, 3]) [checksum] [] c" for c
  proof
    assume "orch c = Return [[6]] None"
    with c have "ended (data_err_reader [1, 2, 3]) (nreads c)"
      using FromReader_chunking_unobservable [OF 4, where data = "data_err_reader [1, 2, 3]"
          and p = "[]" and hashset = "[[6]]", THEN conjunct1, THEN spec, of c]
      by simp
    then have "clean (data_err_reader [1, 2, 3]) (nreads c - 1)"
      and "fst (data_err_reader [1, 2, 3] (nreads c - 1)) = []"
      by (simp_all add: ended_def)
    from this(2) have "0 < nreads c - 1"
      by (cases "nreads c - 1 = 0") (simp_all add: data_err_reader_def)
    with \<open>clean (data_err_reader [1, 2, 3]) (nreads c - 1)\<close>
    have "snd (data_err_reader [1, 2, 3] 0) = None"
      by (simp add: clean_def)
    then show False by (simp add: data_err_reader_def)
  qed
  from r [of "[[6], [6]]" None] r [of "[[3], [3]]" None] n show ?thesis by simp
qed

text \<open>
  C4. Whenever \<^verbatim>\<open>FromReader\<close> or \<^verbatim>\<open>FromFile\<close> returns an error that is not \<^verbatim>\<open>nil\<close>,
  whether from a failed read of the source, a failed write of an accumulator, a failed
  \<^verbatim>\<open>os.Open\<close> or the pool, under whatever schedule, the digest sequence it returns is
  empty.
\<close>

theorem error_returns_no_digests:
  "(FromReader_returns p data hashFunctions hashset (Some e) \<longrightarrow> hashset = [])
   \<and> (FromFile_returns os_Open p filename hashFunctions hashset (Some e) \<longrightarrow> hashset = [])"
proof -
  have r: "hashset = []" if "FromReader_returns p data hashFunctions hashset (Some e)"
    for data :: reader
  proof -
    from that obtain c where "reach data hashFunctions p c" "orch c = Return hashset (Some e)"
      by (auto simp: FromReader_returns_def)
    with reach_fed [of data hashFunctions p c] show ?thesis by (simp add: fed_def)
  qed
  then show ?thesis
    by (auto simp: FromFile_returns_def split: sum.splits)
qed

theorem error_returns_no_digests_witness:
  "FromReader_returns [] (failing_reader [1] (OtherError 5)) [checksum] [] (Some (OtherError 5))
   \<and> \<not> FromReader_returns [] (failing_reader [1] (OtherError 5)) [checksum] [[1]] (Some (OtherError 5))
   \<and> FromReader_returns [] (chunk_reader [[1]]) [checksum, broken] [] (Some (OtherError 1))
   \<and> \<not> FromReader_returns [] (chunk_reader [[1]]) [checksum, broken] [[1], [0]] (Some (OtherError 1))
   \<and> FromFile_returns (\<lambda>name. Inl (OtherError 2)) [] ''missing.txt'' [checksum] [] (Some (OtherError 2))
   \<and> \<not> FromFile_returns (\<lambda>name. Inr (failing_reader [1] (OtherError 5))) [] ''foo.txt'' [checksum]
         [[1]] (Some (OtherError 5))"
proof -
  have "outcome (failing_reader [1] (OtherError 5)) [checksum] [] [Orch, Orch]
      = Some (Return [] (Some (OtherError 5)), [WaitReady], [[0]], [])"
    by (simp add: run_eval checksum_def failing_reader_def)
  then have 1: "FromReader_returns [] (failing_reader [1] (OtherError 5)) [checksum] [] (Some (OtherError 5))"
    by (rule outcome_returns)
  have "outcome (chunk_reader [[1]]) [checksum, broken] []
      [Orch, Orch, Sync 0, Sync 1, Feed 0, Feed 1, Orch, Sync 1]
    = Some (Return [] (Some (OtherError 1)), [SendErr None, WaitReady], [[1], [0]], [])"
    by (simp add: run_eval checksum_def broken_def chunk_reader_def)
  then have 2: "FromReader_returns [] (chunk_reader [[1]]) [checksum, broken] [] (Some (OtherError 1))"
    by (rule outcome_returns)
  have 3: "FromFile_returns (\<lambda>name. Inl (OtherError 2)) [] ''missing.txt'' [checksum] [] (Some (OtherError 2))"
    by (simp add: FromFile_returns_def)
  from error_returns_no_digests [of "[]" "failing_reader [1] (OtherError 5)" "[checksum]" "[[1]]"
      "OtherError 5" "\<lambda>name. Inr (failing_reader [1] (OtherError 5))" "''foo.txt''"]
    error_returns_no_digests [of "[]" "chunk_reader [[1]]" "[checksum, broken]" "[[1], [0]]"
      "OtherError 1"]
    1 2 3 show ?thesis by simp
qed

text \<open>
  C6. With no accumulators, on a stream whose last bytes come together with the end of
  the stream (which \<^verbatim>\<open>io.Reader\<close> allows, and which is no failure of the source),
  \<^verbatim>\<open>FromReader\<close> does not return the empty digest sequence with no error: the first read
  stores three bytes and reports \<^verbatim>\<open>io.EOF\<close>, and line 72 returns \<^verbatim>\<open>io.EOF\<close> as the error
  of the call; under no schedule does the call return the empty digest sequence with no
  error. The same bytes followed by a read of no bytes and \<^verbatim>\<open>io.EOF\<close> give the empty
  digest sequence and no error.
\<close>

theorem no_accumulators_eof_with_bytes:
  "data_err_reader [1, 2, 3] 0 = ([1, 2, 3], Some EOF)
   \<and> outcome (data_err_reader [1, 2, 3]) ([] :: byte hash list) [] [Orch, Orch]
       = Some (Return [] (Some EOF), [], [], [])
   \<and> \<not> FromReader_returns [] (data_err_reader [1, 2, 3]) ([] :: byte hash list) [] None
   \<and> outcome (chunk_reader [[1, 2, 3]]) ([] :: byte hash list) []
        [Orch, Orch, Orch, Orch, Orch, Orch]
       = Some (Return [] None, [], [], [])"
proof -
  have d: "data_err_reader [1, 2, 3] 0 = ([1, 2, 3], Some EOF)"
    by (simp add: data_err_reader_def)
  have n: "\<not> ([1, 2, 3 :: byte] = [] \<and> errors_Is EOF EOF)" by simp
  have 1: "outcome (data_err_reader [1, 2, 3]) ([] :: byte hash list) [] [Orch, Orch]
       = Some (Return [] (Some EOF), [], [], [])"
    by (simp add: run_eval data_err_reader_def)
  have 3: "\<not> FromReader_returns [] (data_err_reader [1, 2, 3]) ([] :: byte hash list) [] None"
  proof
    assume "FromReader_returns [] (data_err_reader [1, 2, 3]) ([] :: byte hash list) [] None"
    then obtain c where "reach (data_err_reader [1, 2, 3]) ([] :: byte hash list) [] c"
      "orch c = Return [] None"
      by (auto simp: FromReader_returns_def)
    with first_read_error [of "data_err_reader [1, 2, 3]" "[1, 2, 3]" EOF "[]" "[]" c, OF d n] show False by simp
  qed
  have 4: "outcome (chunk_reader [[1, 2, 3]]) ([] :: byte hash list) []
        [Orch, Orch, Orch, Orch, Orch, Orch]
       = Some (Return [] None, [], [], [])"
    by (simp add: run_eval chunk_reader_def)
  from d 1 3 4 show ?thesis by blast
qed

text \<open>
  C9, as the claim states it, fails on the path where the type assertion of line 51
  fails: \<^verbatim>\<open>FromReader\<close> returns \<open>ErrBufferGetFailed\<close> at line 53, before the
  \<^verbatim>\<open>defer bufferPool.Put(buffer)\<close> of line 55, and the item it took from the pool is not
  put back: the pool that held that one item is empty after the return.
\<close>

theorem assertion_failure_releases_nothing:
  "outcome (chunk_reader []) [checksum] [NonBuffer 0] [Orch]
     = Some (Return [] (Some ErrBufferGetFailed), [], [], [])
   \<and> pool_after (chunk_reader []) [checksum] [NonBuffer 0] [Orch] = Some []"
  by (simp add: run_eval checksum_def chunk_reader_def)

text \<open>
  C9, amended. On every exit path of \<^verbatim>\<open>FromReader\<close> after the type assertion succeeded
  (normal completion, source read error, accumulator write error) the leased buffer is
  put back exactly once, at the return: until line 51 has run the pool is untouched,
  while the call runs the pool is the pool that \<^verbatim>\<open>Get\<close> left, and from the return on it
  is that pool plus the buffer, which still has its capacity. On the path where the type
  assertion fails nothing is put back: the call returns \<open>ErrBufferGetFailed\<close> with no
  digests and the pool stays the pool that \<^verbatim>\<open>Get\<close> left.
\<close>

theorem buffer_released_once:
  assumes "reach data hashFunctions p c" and "pool_Get p = (item, rest)"
  shows "(orch c = Entry \<longrightarrow> pool c = p)
    \<and> (orch c \<noteq> Entry \<and> \<not> returned c \<longrightarrow> pool c = rest \<and> (\<exists>b. item = ByteSlicePtr b))
    \<and> (returned c \<longrightarrow>
         (case item of
            ByteSlicePtr b \<Rightarrow>
              pool c = pool_Put (ByteSlicePtr (buffer c)) rest \<and> length (buffer c) = length b
          | NonBuffer v \<Rightarrow> pool c = rest \<and> orch c = Return [] (Some ErrBufferGetFailed)))"
  using reach_leased [OF assms(1)] assms(2)
  by (cases "orch c") (auto simp: leased_def returned_def split: any.splits)

theorem buffer_released_once_witness:
  "pool_after (chunk_reader [[1, 2], [3]]) [checksum] [ByteSlicePtr [9, 9, 9, 9], NonBuffer 3]
      [Orch, Orch, Sync 0, Feed 0, Orch, Sync 0, Orch, Orch, Sync 0, Feed 0, Orch, Sync 0, Orch,
       Orch, Feed 0, Sync 0, Orch]
     = Some [ByteSlicePtr [3, 2, 9, 9], NonBuffer 3]
   \<and> \<not> (\<exists>c. reach (chunk_reader [[1, 2], [3]]) [checksum] [ByteSlicePtr [9, 9, 9, 9], NonBuffer 3] c
            \<and> returned c \<and> length (pool c) \<noteq> 2)
   \<and> \<not> (\<exists>c. reach (chunk_reader [[1, 2], [3]]) [checksum] [NonBuffer 3, ByteSlicePtr [9, 9, 9, 9]] c
            \<and> returned c \<and> length (pool c) \<noteq> 1)"
proof -
  have 1: "pool_after (chunk_reader [[1, 2], [3]]) [checksum] [ByteSlicePtr [9, 9, 9, 9], NonBuffer 3]
      [Orch, Orch, Sync 0, Feed 0, Orch, Sync 0, Orch, Orch, Sync 0, Feed 0, Orch, Sync 0, Orch,
       Orch, Feed 0, Sync 0, Orch]
     = Some [ByteSlicePtr [3, 2, 9, 9], NonBuffer 3]"
    by (simp add: run_eval checksum_def chunk_reader_def)
  have 2: "length (pool c) = 2"
    if "reach (chunk_reader [[1, 2], [3]]) [checksum] [ByteSlicePtr [9, 9, 9, 9], NonBuffer 3] c"
      "returned c" for c
    using buffer_released_once [OF that(1), of "ByteSlicePtr [9, 9, 9, 9]" "[NonBuffer 3]"] that(2)
    by (simp add: pool_Get_def pool_Put_def)
  have 3: "length (pool c) = 1"
    if "reach (chunk_reader [[1, 2], [3]]) [checksum] [NonBuffer 3, ByteSlicePtr [9, 9, 9, 9]] c"
      "returned c" for c
    using buffer_released_once [OF that(1), of "NonBuffer 3" "[ByteSlicePtr [9, 9, 9, 9]]"] that(2)
    by (simp add: pool_Get_def pool_Put_def)
  from 1 2 3 show ?thesis by blast
qed

text \<open>
  C2. What the code does after an error return, under every schedule: \<open>readySignals\<close> is
  never closed (only line 69 closes it), so no feeder ever leaves its loop: none has
  returned and none is at its final send. \<^verbatim>\<open>FromReader\<close> has returned, so no rendezvous
  can take place any more, and a feeder has no step left but to finish the \<^verbatim>\<open>Write\<close> it
  was in, after which it blocks at line 108. Every feeder of the call is left blocked
  for good, the one that reported the error included (it is back at line 106). The
  claim's first half holds (the first error received at line 78 is returned), its second
  half (the remaining feeders are drained before the call returns) does not.
\<close>

theorem error_return_strands_feeders:
  assumes "reach data hashFunctions p c" and "orch c = Return hashset (Some e)"
  shows "\<not> closed c
    \<and> (\<forall>f\<in>set (feeders c). fpc f \<noteq> Done \<and> (\<forall>d. fpc f \<noteq> SendSum d))
    \<and> (\<forall>j. sync_step j c = None)
    \<and> (\<forall>j. (\<forall>n. fpc (feeders c ! j) \<noteq> Writing n) \<longrightarrow> feeder_step j c = None)"
proof -
  from reach_stranded [OF assms(1)] assms(2)
  have cl: "\<not> closed c" and r: "list_all in_round (feeders c)"
    by (simp_all add: stranded_def)
  from r have 1: "\<forall>f\<in>set (feeders c). fpc f \<noteq> Done \<and> (\<forall>d. fpc f \<noteq> SendSum d)"
    by (auto simp: list_all_iff in_round_def)
  from assms(2) have 2: "sync_step j c = None" for j
    by (simp add: sync_step_def)
  have 3: "feeder_step j c = None" if "\<forall>n. fpc (feeders c ! j) \<noteq> Writing n" for j
    using that cl by (auto simp: feeder_step_def Let_def split: hashFeeder_pc.splits)
  from cl 1 2 3 show ?thesis by blast
qed

theorem error_return_strands_feeders_witness:
  "outcome (chunk_reader [[1]]) [checksum, broken] []
      [Orch, Orch, Sync 0, Sync 1, Feed 0, Feed 1, Orch, Sync 1]
     = Some (Return [] (Some (OtherError 1)), [SendErr None, WaitReady], [[1], [0]], [])
   \<and> \<not> (\<exists>c. reach (chunk_reader [[1]]) [checksum, broken] [] c
            \<and> orch c = Return [] (Some (OtherError 1)) \<and> (\<exists>f\<in>set (feeders c). fpc f = Done))"
proof -
  have "outcome (chunk_reader [[1]]) [checksum, broken] []
      [Orch, Orch, Sync 0, Sync 1, Feed 0, Feed 1, Orch, Sync 1]
    = Some (Return [] (Some (OtherError 1)), [SendErr None, WaitReady], [[1], [0]], [])"
    by (simp add: run_eval checksum_def broken_def chunk_reader_def)
  moreover have "fpc f \<noteq> Done"
    if "reach (chunk_reader [[1]]) [checksum, broken] [] c"
      "orch c = Return [] (Some (OtherError 1))" "f \<in> set (feeders c)" for c f
    using error_return_strands_feeders [OF that(1,2)] that(3) by blast
  ultimately show ?thesis by blast
qed

text \<open>
  C3. What the code does on a read that returns bytes together with the end of the
  stream: the test of line 68 lets only a read of zero bytes leave the loop, and line 72
  returns every other error, \<^verbatim>\<open>io.EOF\<close> included, before lines 74-76 send anything. Here
  the first read stores three bytes and reports \<^verbatim>\<open>io.EOF\<close>: the call returns \<^verbatim>\<open>io.EOF\<close>
  and no digests, no step is left, under no schedule is a feeder ever other than as it
  was started (none is sent the length, none writes the bytes), and under no schedule
  does the call return digests. The same three bytes from a read that reports no error,
  followed by a read of no bytes and \<^verbatim>\<open>io.EOF\<close>, are sent to the feeder, written to its
  hash and returned as its digest.
\<close>

theorem eof_with_bytes_is_not_broadcast:
  "data_err_reader [1, 2, 3] 0 = ([1, 2, 3], Some EOF)
   \<and> outcome (data_err_reader [1, 2, 3]) [checksum] [] [Orch, Orch]
       = Some (Return [] (Some EOF), [WaitReady], [[0]], [])
   \<and> \<not> (\<exists>c. reach (data_err_reader [1, 2, 3]) [checksum] [] c
            \<and> feeders c \<noteq> [] \<and> feeders c \<noteq> [spawn checksum])
   \<and> \<not> (\<exists>hashset. FromReader_returns [] (data_err_reader [1, 2, 3]) [checksum] hashset None)
   \<and> outcome (chunk_reader [[1, 2, 3]]) [checksum] []
        [Orch, Orch, Sync 0, Feed 0, Orch, Sync 0, Orch, Orch, Feed 0, Sync 0, Orch]
       = Some (Return [[6]] None, [Done], [[6]], [])"
proof -
  have d: "data_err_reader [1, 2, 3] 0 = ([1, 2, 3], Some EOF)"
    by (simp add: data_err_reader_def)
  have n: "\<not> ([1, 2, 3 :: byte] = [] \<and> errors_Is EOF EOF)" by simp
  note inv = first_read_error [of "data_err_reader [1, 2, 3]" "[1, 2, 3]" EOF, OF d n]
  have 1: "outcome (data_err_reader [1, 2, 3]) [checksum] [] [Orch, Orch]
       = Some (Return [] (Some EOF), [WaitReady], [[0]], [])"
    by (simp add: run_eval checksum_def data_err_reader_def)
  have 2: "feeders c = [] \<or> feeders c = [spawn checksum]"
    if "reach (data_err_reader [1, 2, 3]) [checksum] [] c" for c
    using inv [OF that] by simp
  have 3: "\<not> FromReader_returns [] (data_err_reader [1, 2, 3]) [checksum] hashset None" for hashset
  proof
    assume "FromReader_returns [] (data_err_reader [1, 2, 3]) [checksum] hashset None"
    then obtain c where "reach (data_err_reader [1, 2, 3]) [checksum] [] c"
      "orch c = Return hashset None"
      by (auto simp: FromReader_returns_def)
    with inv [of "[checksum]" "[]" c] show False by simp
  qed
  have 4: "outcome (chunk_reader [[1, 2, 3]]) [checksum] []
        [Orch, Orch, Sync 0, Feed 0, Orch, Sync 0, Orch, Orch, Feed 0, Sync 0, Orch]
       = Some (Return [[6]] None, [Done], [[6]], [])"
    by (simp add: run_eval checksum_def chunk_reader_def)
  from d 1 2 3 4 show ?thesis by blast
qed

text \<open>
  C10. For a source one of whose reads reports an error or the end of the stream (and
  that stays within the buffer), \<^verbatim>\<open>FromReader\<close> terminates under every schedule: there is
  no run that never ends, a configuration in which no step is left is one where the call
  has returned, and the call does return. A read of no bytes and no error does not end
  the loop: it is handed to every feeder as a chunk of length 0, which the feeder writes
  to its hash. So for a source that returns no bytes and no error for ever (and
  accumulators that accept an empty write) the call never returns, in no configuration is
  it without a next step, and there is a run that never ends; every length a feeder holds
  is 0; whenever \<^verbatim>\<open>FromReader\<close> is at \<^verbatim>\<open>data.Read\<close>, every accumulator has been given one
  empty \<^verbatim>\<open>Write\<close> for each read made so far; and every run that never ends comes to
  \<^verbatim>\<open>data.Read\<close> with every count of reads, so that on it every accumulator is given an
  empty \<^verbatim>\<open>Write\<close> again and again.
\<close>

theorem FromReader_terminates_unless_idle:
  "(snd (data L) \<noteq> None \<and> pool_Get p = (ByteSlicePtr b, rest)
      \<and> (\<forall>k. length (fst (data k)) \<le> length b)
    \<longrightarrow> (\<nexists>run. infinite_run data hashFunctions p run)
        \<and> (\<forall>c. reach data hashFunctions p c \<and> stuck data hashFunctions c \<longrightarrow> returned c)
        \<and> (\<exists>c. reach data hashFunctions p c \<and> returned c))
   \<and> ((\<forall>k. data k = ([], None)) \<and> pool_Get p = (ByteSlicePtr b, rest)
      \<and> (\<forall>h\<in>set hashFunctions. \<forall>s. snd (write_fn h s []) = None)
    \<longrightarrow> (\<forall>c. reach data hashFunctions p c \<longrightarrow>
            \<not> returned c \<and> \<not> stuck data hashFunctions c
            \<and> (\<forall>f\<in>set (feeders c). \<forall>n. fpc f = Writing n \<longrightarrow> n = 0))
        \<and> (\<exists>run. infinite_run data hashFunctions p run)
        \<and> (\<forall>c. reach data hashFunctions p c \<and> orch c = Reading \<longrightarrow>
              (\<forall>j<length hashFunctions.
                 hash (feeders c ! j) = Writes (hashFunctions ! j) (replicate (nreads c) [])))
        \<and> (\<forall>run. infinite_run data hashFunctions p run \<longrightarrow>
              (\<forall>k. \<exists>i. orch (run i) = Reading \<and> nreads (run i) = k)))"
proof (intro conjI impI)
  assume a: "snd (data L) \<noteq> None \<and> pool_Get p = (ByteSlicePtr b, rest)
      \<and> (\<forall>k. length (fst (data k)) \<le> length b)"
  then have e: "snd (data L) \<noteq> None" and g: "pool_Get p = (ByteSlicePtr b, rest)"
    and f: "\<And>k. length (fst (data k)) \<le> length b" by simp_all
  show "\<nexists>run. infinite_run data hashFunctions p run"
    using no_infinite_run [of data L hashFunctions p, OF e] by blast
  have np: "\<not> panicked c" if "reach data hashFunctions p c" for c
    using reach_no_panic [OF that g] f by simp
  show sr: "\<forall>c. reach data hashFunctions p c \<and> stuck data hashFunctions c \<longrightarrow> returned c"
    using np stuck_returned by blast
  from some_run_ends [of data L hashFunctions p, OF e] sr
  show "\<exists>c. reach data hashFunctions p c \<and> returned c" by blast
next
  assume a: "(\<forall>k. data k = ([], None)) \<and> pool_Get p = (ByteSlicePtr b, rest)
      \<and> (\<forall>h\<in>set hashFunctions. \<forall>s. snd (write_fn h s []) = None)"
  then have d: "\<forall>k. data k = ([], None)" and g: "pool_Get p = (ByteSlicePtr b, rest)"
    and w: "\<forall>h\<in>set hashFunctions. \<forall>s. snd (write_fn h s []) = None" by simp_all
  have nr: "\<not> returned c" if "reach data hashFunctions p c" for c
    using idle_never_returns [OF d g w that] by (auto simp: returned_def split: FromReader_pc.splits)
  have np: "\<not> panicked c" if "reach data hashFunctions p c" for c
    using reach_no_panic [OF that g] d by simp
  have pr: "\<exists>ev c'. step data hashFunctions ev c = Some c'" if r: "reach data hashFunctions p c" for c
  proof (rule progress [OF reach_shape [OF r] np [OF r]])
    fix hashset err
    from nr [OF r] show "orch c \<noteq> Return hashset err" by (auto simp: returned_def)
  qed
  have z: "n = 0" if "reach data hashFunctions p c" "f \<in> set (feeders c)" "fpc f = Writing n" for c f n
    using reach_calm [OF that(1)] that(2,3) d by (auto simp: calm_def list_all_iff holds_length_def)
  from nr pr z
  show "\<forall>c. reach data hashFunctions p c \<longrightarrow>
            \<not> returned c \<and> \<not> stuck data hashFunctions c
            \<and> (\<forall>f\<in>set (feeders c). \<forall>n. fpc f = Writing n \<longrightarrow> n = 0)"
    by (auto simp: stuck_iff)
  from endless_run [of data hashFunctions p] pr
  show "\<exists>run. infinite_run data hashFunctions p run" by blast
  show "\<forall>c. reach data hashFunctions p c \<and> orch c = Reading \<longrightarrow>
      (\<forall>j<length hashFunctions.
         hash (feeders c ! j) = Writes (hashFunctions ! j) (replicate (nreads c) []))"
    using reading_hashes [of data hashFunctions p] chunks_idle [OF d] by simp
  show "\<forall>run. infinite_run data hashFunctions p run \<longrightarrow>
      (\<forall>k. \<exists>i. orch (run i) = Reading \<and> nreads (run i) = k)"
    using run_reads_every_count [of data hashFunctions p] by blast
qed

theorem FromReader_terminates_unless_idle_witness:
  "(\<nexists>run. infinite_run (chunk_reader [[1, 2], [3]]) [checksum, checksum] [] run)
   \<and> (\<exists>c. reach (chunk_reader [[1, 2], [3]]) [checksum, checksum] [] c \<and> returned c)
   \<and> (\<exists>run. infinite_run idle_reader [checksum] [] run)
   \<and> \<not> (\<exists>c. reach idle_reader [checksum] [] c \<and> returned c)
   \<and> outcome idle_reader [write_counter, write_counter] []
        [Orch, Orch, Sync 0, Sync 1, Feed 0, Feed 1, Orch, Sync 0, Sync 1, Orch]
       = Some (Reading, [WaitReady, WaitReady], [[1], [1]], [Orch])
   \<and> \<not> (\<exists>c. reach idle_reader [write_counter] [] c \<and> orch c = Reading \<and> nreads c = 2
            \<and> hash_Sum (hash (feeders c ! 0)) \<noteq> [2])
   \<and> \<not> (\<exists>run. infinite_run idle_reader [write_counter] [] run
            \<and> (\<forall>i. orch (run i) = Reading \<longrightarrow> nreads (run i) \<noteq> 2))"
proof -
  have 1: "snd (chunk_reader [[1, 2], [3]] 2) \<noteq> None \<and> pool_Get [] = (ByteSlicePtr (replicate bufferSize 0), [])
      \<and> (\<forall>k. length (fst (chunk_reader [[1, 2], [3]] k)) \<le> length (replicate bufferSize (0 :: byte)))"
    by (simp add: pool_Get_empty chunk_reader_def bufferSize_def nth_Cons')
  have 2: "(\<forall>k. idle_reader k = ([], None)) \<and> pool_Get [] = (ByteSlicePtr (replicate bufferSize 0), [])
      \<and> (\<forall>h\<in>set [checksum]. \<forall>s. snd (write_fn h s []) = None)"
    by (simp add: pool_Get_empty idle_reader_def checksum_def)
  have 3: "(\<forall>k. idle_reader k = ([], None)) \<and> pool_Get [] = (ByteSlicePtr (replicate bufferSize 0), [])
      \<and> (\<forall>h\<in>set [write_counter]. \<forall>s. snd (write_fn h s []) = None)"
    by (simp add: pool_Get_empty idle_reader_def write_counter_def)
  note A = FromReader_terminates_unless_idle [of "chunk_reader [[1, 2], [3]]" 2 "[]"
      "replicate bufferSize 0" "[]" "[checksum, checksum]", THEN conjunct1, THEN mp, OF 1]
  note B = FromReader_terminates_unless_idle [of idle_reader 0 "[]" "replicate bufferSize 0" "[]"
      "[checksum]", THEN conjunct2, THEN mp, OF 2]
  note C = FromReader_terminates_unless_idle [of idle_reader 0 "[]" "replicate bufferSize 0" "[]"
      "[write_counter]", THEN conjunct2, THEN mp, OF 3]
  from A have a1: "\<nexists>run. infinite_run (chunk_reader [[1, 2], [3]]) [checksum, checksum] [] run"
    and a2: "\<exists>c. reach (chunk_reader [[1, 2], [3]]) [checksum, checksum] [] c \<and> returned c"
    by blast+
  from B have b1: "\<exists>run. infinite_run idle_reader [checksum] [] run"
    and b2: "\<not> (\<exists>c. reach idle_reader [checksum] [] c \<and> returned c)"
    by blast+
  have o: "outcome idle_reader [write_counter, write_counter] []
        [Orch, Orch, Sync 0, Sync 1, Feed 0, Feed 1, Orch, Sync 0, Sync 1, Orch]
       = Some (Reading, [WaitReady, WaitReady], [[1], [1]], [Orch])"
    by (simp add: run_eval write_counter_def idle_reader_def)
  have w: "hash_Sum (Writes write_counter (replicate 2 [])) = [2]"
    by (simp add: numeral_2_eq_2 Writes_def hash_Write_def hash_Sum_def write_counter_def)
  have c1: "hash_Sum (hash (feeders c ! 0)) = [2]"
    if "reach idle_reader [write_counter] [] c" "orch c = Reading" "nreads c = 2" for c
  proof -
    from C have "\<forall>c. reach idle_reader [write_counter] [] c \<and> orch c = Reading \<longrightarrow>
        (\<forall>j<length [write_counter].
           hash (feeders c ! j) = Writes ([write_counter] ! j) (replicate (nreads c) []))"
      by (rule conjunct2 [THEN conjunct2, THEN conjunct1])
    with that have "hash (feeders c ! 0) = Writes write_counter (replicate 2 [])" by simp
    with w show ?thesis by simp
  qed
  have c2: "\<exists>i. orch (run i) = Reading \<and> nreads (run i) = 2"
    if "infinite_run idle_reader [write_counter] [] run" for run
  proof -
    from C have "\<forall>run. infinite_run idle_reader [write_counter] [] run \<longrightarrow>
        (\<forall>k. \<exists>i. orch (run i) = Reading \<and> nreads (run i) = k)"
      by (rule conjunct2 [THEN conjunct2, THEN conjunct2])
    with that show ?thesis by blast
  qed
  from a1 a2 b1 b2 o c1 c2 show ?thesis by blast
qed

text \<open>
  C5. The digests come back in the order of the accumulators: whenever \<^verbatim>\<open>FromReader\<close>
  returns digests, there is one per accumulator, and the digest at position \<open>i\<close> is the
  \<^verbatim>\<open>Sum\<close> of accumulator \<open>i\<close> after the chunks of the stream were written to it. For the
  input \<^verbatim>\<open>"abc"\<close> with MD5 then SHA-1 the call returns the MD5 digest then the SHA-1 digest
  and nothing else, and these are \<^verbatim>\<open>900150983cd24fb0d6963f7d28e17f72\<close> and
  \<^verbatim>\<open>a9993e364706816aba3e25717850c26c9cd0d89d\<close>.
\<close>

theorem digests_in_argument_order:
  "(\<forall>c. reach data hashFunctions p c \<and> orch c = Return hashset None \<longrightarrow>
        length hashset = length hashFunctions
        \<and> (\<forall>i<length hashFunctions.
              hashset ! i = hash_Sum (Writes (hashFunctions ! i) (chunks data (nreads c - 1)))))
   \<and> (FromReader_returns [] (chunk_reader [bytes_of ''abc'']) [MD5_New, SHA1_New] hashes err \<longleftrightarrow>
        err = None \<and> hashes = [md5 (bytes_of ''abc''), sha1 (bytes_of ''abc'')])
   \<and> hex (md5 (bytes_of ''abc'')) = ''900150983cd24fb0d6963f7d28e17f72''
   \<and> hex (sha1 (bytes_of ''abc'')) = ''a9993e364706816aba3e25717850c26c9cd0d89d''"
proof (intro conjI allI impI)
  fix c
  assume a: "reach data hashFunctions p c \<and> orch c = Return hashset None"
  then have h: "hashset = digests data (nreads c - 1) hashFunctions"
    using returns_digests [of data hashFunctions p c hashset] by simp
  then show "length hashset = length hashFunctions" by (simp add: digests_def)
  fix i
  assume "i < length hashFunctions"
  with h show "hashset ! i = hash_Sum (Writes (hashFunctions ! i) (chunks data (nreads c - 1)))"
    by (simp add: digests_def)
next
  let ?data = "chunk_reader [bytes_of ''abc'']"
  have 1: "clean ?data 1" by (simp add: clean_def chunk_reader_def)
  have 2: "?data 1 = ([], Some EOF)" by (simp add: chunk_reader_def)
  have 3: "errors_Is EOF EOF" by simp
  have 4: "\<forall>k<1. length (fst (?data k)) \<le> length (replicate bufferSize (0 :: byte))"
    by (simp add: chunk_reader_def bytes_of_def bufferSize_def)
  have 5: "\<forall>h\<in>set [MD5_New, SHA1_New]. accepts ?data 1 h"
    by (simp add: accepts_def hash_Write_def write_fn_Writes MD5_New_def SHA1_New_def
        split: prod.splits)
  have 6: "digests ?data 1 [MD5_New, SHA1_New] = [md5 (bytes_of ''abc''), sha1 (bytes_of ''abc'')]"
    by (simp add: digests_def chunks_def chunk_reader_def Writes_def hash_Write_def hash_Sum_def
        MD5_New_def SHA1_New_def)
  from FromReader_result(1) [OF 1 2 3 pool_Get_empty 4 5] 6
  show "FromReader_returns [] ?data [MD5_New, SHA1_New] hashes err \<longleftrightarrow>
      err = None \<and> hashes = [md5 (bytes_of ''abc''), sha1 (bytes_of ''abc'')]"
    by simp
next
  show "hex (md5 (bytes_of ''abc'')) = ''900150983cd24fb0d6963f7d28e17f72''"
    by (rule hex_md5_abc)
  show "hex (sha1 (bytes_of ''abc'')) = ''a9993e364706816aba3e25717850c26c9cd0d89d''"
    by (rule hex_sha1_abc)
qed

theorem digests_in_argument_order_witness:
  "FromReader_returns [] (chunk_reader [bytes_of ''abc'']) [MD5_New, SHA1_New]
      [md5 (bytes_of ''abc''), sha1 (bytes_of ''abc'')] None
   \<and> \<not> FromReader_returns [] (chunk_reader [bytes_of ''abc'']) [MD5_New, SHA1_New]
      [sha1 (bytes_of ''abc''), md5 (bytes_of ''abc'')] None
   \<and> \<not> (\<exists>c. reach (chunk_reader [[1, 2], [3]]) [checksum, checksum] [] c
            \<and> orch c = Return [[6]] None)"
proof -
  have ne: "md5 (bytes_of ''abc'') \<noteq> sha1 (bytes_of ''abc'')"
    by (simp add: bytes_of_abc md5_abc sha1_abc)
  have r: "FromReader_returns [] (chunk_reader [bytes_of ''abc'']) [MD5_New, SHA1_New] hashes err
      \<longleftrightarrow> err = None \<and> hashes = [md5 (bytes_of ''abc''), sha1 (bytes_of ''abc'')]" for hashes err
    by (rule digests_in_argument_order [where hashes = hashes and err = err,
          THEN conjunct2, THEN conjunct1])
  have g: "orch c \<noteq> Return [[6]] None"
    if c: "reach (chunk_reader [[1, 2], [3]]) [checksum, checksum] [] c" for c
  proof
    assume "orch c = Return [[6]] None"
    with c have "length [[6 :: byte]] = length [checksum, checksum]"
      using digests_in_argument_order [where data = "chunk_reader [[1, 2], [3]]"
          and hashFunctions = "[checksum, checksum]" and p = "[]" and hashset = "[[6]]",
          THEN conjunct1, THEN spec, of c]
      by (simp del: length_Cons)
    then show False by simp
  qed
  from r [of "[md5 (bytes_of ''abc''), sha1 (bytes_of ''abc'')]" None]
    r [of "[sha1 (bytes_of ''abc''), md5 (bytes_of ''abc'')]" None] ne g
  show ?thesis by simp
qed

text \<open>
  C7, as the claim states it, fails in its second half: the value the spec gives for
  SHA-256 has 63 hexadecimal digits, and no digest in hexadecimal has an odd number of
  them. For the empty stream the call returns the SHA-256 digest of the empty input, and
  that is not the value of the spec.
\<close>

theorem sha256_of_empty_input_is_not_the_spec_value:
  "FromReader_returns [] (chunk_reader []) [SHA256_New] [sha256 []] None
   \<and> hex (sha256 []) \<noteq> ''e3b0c44298fc1c149afbf4c8996fb92427ae41e4649b934ca495991b7852b85''
   \<and> \<not> (\<exists>d. FromReader_returns [] (chunk_reader []) [SHA256_New] [d] None
            \<and> hex d = ''e3b0c44298fc1c149afbf4c8996fb92427ae41e4649b934ca495991b7852b85'')"
proof -
  have r: "FromReader_returns [] (chunk_reader []) [SHA256_New] hashset err
      \<longleftrightarrow> err = None \<and> hashset = [sha256 []]" for hashset err
    using empty_stream_result [of "chunk_reader []" EOF "[]" _ _ "[SHA256_New]" hashset err]
    by (simp add: chunk_reader_def pool_Get_empty hash_Sum_def SHA256_New_def)
  have "hex (sha256 []) \<noteq> ''e3b0c44298fc1c149afbf4c8996fb92427ae41e4649b934ca495991b7852b85''"
    by (simp add: hex_sha256_empty)
  with r show ?thesis by simp
qed

text \<open>
  C7, amended. For an empty stream (the first read reports the end of the stream with no
  bytes) \<^verbatim>\<open>FromReader\<close> returns, for each accumulator, the \<^verbatim>\<open>Sum\<close> of that accumulator as
  it was passed, with nothing written to it: the algorithm's digest of the empty input;
  and no error. For a SHA-256 accumulator this digest is
  \<^verbatim>\<open>e3b0c44298fc1c149afbf4c8996fb92427ae41e4649b934ca495991b7852b855\<close> (64 digits, the
  spec's value with the last digit restored).
\<close>

theorem empty_stream_digests:
  assumes "data 0 = ([], Some e)" and "errors_Is e EOF" and "pool_Get p = (ByteSlicePtr b, rest)"
  shows "(FromReader_returns p data hashFunctions hashset err \<longleftrightarrow>
            err = None \<and> hashset = map hash_Sum hashFunctions)
    \<and> hex (hash_Sum SHA256_New) = ''e3b0c44298fc1c149afbf4c8996fb92427ae41e4649b934ca495991b7852b855''"
  using empty_stream_result [of data e p b rest hashFunctions hashset err, OF assms]
  by (simp add: hash_Sum_def SHA256_New_def hex_sha256_empty)

theorem empty_stream_digests_witness:
  "FromReader_returns [] (chunk_reader []) [SHA256_New, MD5_New] [sha256 [], md5 []] None
   \<and> \<not> FromReader_returns [] (chunk_reader []) [SHA256_New, MD5_New] [] None
   \<and> hex (sha256 []) = ''e3b0c44298fc1c149afbf4c8996fb92427ae41e4649b934ca495991b7852b855''"
  using empty_stream_digests [of "chunk_reader []" EOF "[]" "replicate bufferSize 0" "[]"
      "[SHA256_New, MD5_New]"]
  by (simp add: chunk_reader_def pool_Get_empty hash_Sum_def SHA256_New_def MD5_New_def)

end
